theory Spec2Isabelle
  imports Complex_Main "HOL-Library.Word"
begin

unbundle bit_operations_syntax

section \<open>The firmware sender: data model\<close>

text \<open>
  The repository holds two revisions of one Go program: \<^verbatim>\<open>gboot.go\<close> (version 1.1.0, the
  server address is a constant) and a second file (version 1.2.0, the address is a
  command-line argument checked by \<^verbatim>\<open>isValidIP\<close>). Where the two files share a function
  word for word (\<^verbatim>\<open>calculateCRC32\<close>, the connection loop, the chunk loop) it is modelled
  once. Names of the second file carry the suffix \<open>2\<close>.

  Go's \<^verbatim>\<open>int\<close> is taken to be the 64-bit type of the usual platforms; the length of a
  slice held in memory stays far below its range, so lengths and offsets are \<open>nat\<close>.
  The conversion \<^verbatim>\<open>uint32(firmwareSize)\<close> does truncate and is modelled as such.
\<close>

type_synonym byte = "8 word"
type_synonym uint32 = "32 word"

text \<open>\<^verbatim>\<open>[]byte(s)\<close> for a Go string \<open>s\<close> of ASCII characters.\<close>

definition bytes :: "string \<Rightarrow> byte list" where
  "bytes s = map of_char s"

definition VERSION :: string where "VERSION = ''1.1.0''"
definition VERSION2 :: string where "VERSION2 = ''1.2.0''"
definition SERVER_IP :: string where "SERVER_IP = ''192.168.1.122''"
definition SERVER_PORT :: nat where "SERVER_PORT = 5000"
definition BUFFER_SIZE :: nat where "BUFFER_SIZE = 256"
definition ACK_MSG :: string where "ACK_MSG = ''ACK''"
definition CRC_OK_MSG :: string where "CRC_OK_MSG = ''CRC_OK''"

text \<open>
  Go errors. The program only ever tests an error against \<^verbatim>\<open>nil\<close> and against
  \<^verbatim>\<open>io.EOF\<close>; every other error is an opaque value with a message.
\<close>

datatype go_error = EOF | ErrUnexpectedEOF | OSError string

subsection \<open>What the program prints and does\<close>

text \<open>
  The functions return nothing to their caller; what they do is visible as console
  output and as calls to the operating system. The model returns the sequence of those
  calls, in order. A message is identified by its format string and its arguments.
\<close>

datatype msg =
    MsgNotFound string          \<comment> \<open>Error: Firmware file %s not found\<close>
  | MsgSending string nat       \<comment> \<open>Sending firmware file: %s, size: %d bytes\<close>
  | MsgCRCError go_error        \<comment> \<open>Error: Failed to compute CRC32: err\<close>
  | MsgComputedCRC uint32       \<comment> \<open>Computed firmware CRC32: 0x%08X\<close>
  | MsgConnected string nat     \<comment> \<open>Connected to %s:%d\<close>
  | MsgConnFailed go_error      \<comment> \<open>Connection failed: %v, retrying in 3 seconds...\<close>
  | MsgTransmissionFailed       \<comment> \<open>Error: Transmission failed, incorrect ACK received\<close>
  | MsgUploadCompleted uint32   \<comment> \<open>Firmware upload completed. Sent CRC32: 0x%08X\<close>
  | MsgVerifyFailed             \<comment> \<open>Error: CRC32 verification failed, firmware might be corrupted!\<close>
  | MsgVerifyPassed             \<comment> \<open>Success: CRC32 verification passed, firmware transfer complete.\<close>
  | MsgVersion string           \<comment> \<open>Firmware Sender Version: %s\<close>
  | MsgInvalidIP string         \<comment> \<open>Error: Invalid IP address format: %s\<close>
  | MsgText string              \<comment> \<open>a literal line (usage text, the empty line)\<close>

text \<open>The three places where \<^verbatim>\<open>sendFirmware\<close> calls \<^verbatim>\<open>conn.Write\<close>; a chunk write
  carries the loop variable \<open>i\<close>, the offset of the chunk in the image.\<close>

datatype wkind = Header | Chunk nat | Checksum

datatype event =
    ReadFile string                            \<comment> \<open>os.ReadFile(path)\<close>
  | Open string                                \<comment> \<open>os.Open(path)\<close>
  | FileClose                                  \<comment> \<open>the deferred file.Close()\<close>
  | Dial string nat                            \<comment> \<open>net.Dial("tcp", host:port)\<close>
  | Sleep nat                                  \<comment> \<open>time.Sleep(n * time.Second)\<close>
  | Write wkind "byte list"                    \<comment> \<open>conn.Write(p)\<close>
  | ReadFull nat "byte list" "go_error option" \<comment> \<open>io.ReadFull(conn, buf): len(buf), buf and err after the call\<close>
  | ConnClose                                  \<comment> \<open>the deferred conn.Close()\<close>
  | BarNew nat                                 \<comment> \<open>progressbar.NewOptions(max, ...)\<close>
  | BarAdd nat                                 \<comment> \<open>bar.Add(n)\<close>
  | Print msg                                  \<comment> \<open>fmt.Printf / fmt.Println\<close>

text \<open>How \<^verbatim>\<open>sendFirmware\<close> ends: one constructor for each way out of the function.\<close>

datatype outcome =
    FileNotFound              \<comment> \<open>os.ReadFile failed\<close>
  | CRCFailure go_error       \<comment> \<open>calculateCRC32 failed\<close>
  | TransmissionFailed        \<comment> \<open>a chunk was not acknowledged\<close>
  | VerificationFailed        \<comment> \<open>the reply to the checksum was not CRC_OK\<close>
  | Success

subsection \<open>The environment: file system and network\<close>

text \<open>
  An open file is its remaining content and a plan of how the operating system answers
  the coming \<^verbatim>\<open>Read\<close> calls: \<open>Deliver k\<close> hands out at most \<open>k\<close> bytes (a short read),
  \<open>Fault err\<close> fails with \<open>err\<close>. When the plan is used up every call fills the buffer
  as far as the content reaches. A call that gets no byte from the operating system, at
  the end of the content or by a delivery of 0 bytes before it, returns \<open>0, io.EOF\<close>:
  \<^verbatim>\<open>os.File\<close> reports every read of 0 bytes into a non-empty buffer as the end of the
  file. A call with an empty buffer returns \<open>0, nil\<close> without asking the operating system.
\<close>

datatype read_event = Deliver nat | Fault go_error

record os_file =
  content :: "byte list"
  plan :: "read_event list"

text \<open>\<^verbatim>\<open>file.Read(buffer)\<close> with \<open>n = len(buffer)\<close>: the bytes \<^verbatim>\<open>buffer[:bytesRead]\<close>, the
  error, and the file afterwards.\<close>

fun file_Read :: "os_file \<Rightarrow> nat \<Rightarrow> (byte list \<times> go_error option) \<times> os_file" where
  "file_Read f n =
     (if n = 0 then (([], None), f)
      else
        (case plan f of
           [] \<Rightarrow>
             (if content f = [] then (([], Some EOF), f)
              else ((take n (content f), None), f\<lparr>content := drop n (content f)\<rparr>))
         | Deliver k # rest \<Rightarrow>
             (if content f = [] \<or> k = 0 then (([], Some EOF), f\<lparr>plan := rest\<rparr>)
              else ((take (min k n) (content f), None),
                    f\<lparr>content := drop (min k n) (content f), plan := rest\<rparr>))
         | Fault err # rest \<Rightarrow> (([], Some err), f\<lparr>plan := rest\<rparr>)))"

text \<open>
  A connection is the byte stream the peer sends (\<open>rx\<close>), the error a read meets once
  that stream has run dry (\<open>rx_err\<close>: \<open>EOF\<close> when the peer closed the connection), and
  the results of the coming \<^verbatim>\<open>Write\<close> calls (\<open>tx_errs\<close>; writes succeed once the list is
  used up). Every read returns: a peer that keeps the connection open and stays silent
  for ever is not modelled.
\<close>

record conn =
  rx :: "byte list"
  rx_err :: go_error
  tx_errs :: "go_error option list"

text \<open>\<^verbatim>\<open>conn.Write(p)\<close>: the error returned and the connection afterwards.\<close>

fun conn_Write :: "conn \<Rightarrow> byte list \<Rightarrow> go_error option \<times> conn" where
  "conn_Write c p =
     (case tx_errs c of
        [] \<Rightarrow> (None, c)
      | r # rest \<Rightarrow> (r, c\<lparr>tx_errs := rest\<rparr>))"

text \<open>\<^verbatim>\<open>io.ReadFull(conn, buf)\<close> with \<open>n = len(buf)\<close>, \<open>buf\<close> fresh from \<^verbatim>\<open>make\<close> (all zero):
  the buffer and the error after the call. The error is \<open>EOF\<close> only when no byte was read;
  an \<open>EOF\<close> after some bytes becomes \<open>ErrUnexpectedEOF\<close>.\<close>

fun io_ReadFull :: "conn \<Rightarrow> nat \<Rightarrow> (byte list \<times> go_error option) \<times> conn" where
  "io_ReadFull c n =
     (if n \<le> length (rx c) then ((take n (rx c), None), c\<lparr>rx := drop n (rx c)\<rparr>)
      else ((rx c @ replicate (n - length (rx c)) 0,
             Some (if rx_err c = EOF \<and> rx c \<noteq> [] then ErrUnexpectedEOF else rx_err c)),
            c\<lparr>rx := []\<rparr>))"

text \<open>
  The environment of one run: what \<^verbatim>\<open>os.ReadFile\<close> and \<^verbatim>\<open>os.Open\<close> answer for a path,
  whether the \<open>k\<close>-th call of \<^verbatim>\<open>net.Dial\<close> to a host and port fails (\<open>None\<close>: it connects),
  and the connection a successful call yields.
\<close>

record env =
  fs_ReadFile :: "string \<Rightarrow> go_error + byte list"
  fs_Open :: "string \<Rightarrow> go_error + os_file"
  net_Dial :: "string \<Rightarrow> nat \<Rightarrow> nat \<Rightarrow> go_error option"
  net_conn :: conn

section \<open>hash/crc32 and encoding/binary\<close>

text \<open>
  The standard library's CRC-32, after its reference implementation
  (\<^verbatim>\<open>simplePopulateTable\<close>, \<^verbatim>\<open>simpleUpdate\<close>); the accelerated variants compute the same
  function. \<open>IEEE\<close> is the reversed polynomial.
\<close>

definition IEEE :: uint32 where
  "IEEE = 0xedb88320"

text \<open>One round of the inner loop of \<^verbatim>\<open>simplePopulateTable\<close>.\<close>

definition crc_round :: "uint32 \<Rightarrow> uint32 \<Rightarrow> uint32" where
  "crc_round poly crc =
     (if crc AND 1 = 1 then drop_bit 1 crc XOR poly else drop_bit 1 crc)"

definition simpleMakeTable :: "uint32 \<Rightarrow> byte \<Rightarrow> uint32" where
  "simpleMakeTable poly i = (crc_round poly ^^ 8) (ucast i)"

definition IEEETable :: "byte \<Rightarrow> uint32" where
  "IEEETable = simpleMakeTable IEEE"

definition simpleUpdate :: "uint32 \<Rightarrow> (byte \<Rightarrow> uint32) \<Rightarrow> byte list \<Rightarrow> uint32" where
  "simpleUpdate crc tab p =
     NOT (foldl (\<lambda>crc v. tab (ucast crc XOR v) XOR drop_bit 8 crc) (NOT crc) p)"

text \<open>\<^verbatim>\<open>crc32.ChecksumIEEE(data)\<close>: the IEEE CRC-32 of a byte sequence, in one call.\<close>

definition ChecksumIEEE :: "byte list \<Rightarrow> uint32" where
  "ChecksumIEEE data = simpleUpdate 0 IEEETable data"

text \<open>The streaming digest: \<^verbatim>\<open>crc32.NewIEEE()\<close>, \<^verbatim>\<open>hash.Write(p)\<close>, \<^verbatim>\<open>hash.Sum32()\<close>.\<close>

record digest =
  crc :: uint32

definition NewIEEE :: digest where
  "NewIEEE = \<lparr>crc = 0\<rparr>"

definition digest_Write :: "digest \<Rightarrow> byte list \<Rightarrow> digest" where
  "digest_Write d p = d\<lparr>crc := simpleUpdate (crc d) IEEETable p\<rparr>"

definition Sum32 :: "digest \<Rightarrow> uint32" where
  "Sum32 d = crc d"

text \<open>\<^verbatim>\<open>binary.BigEndian.PutUint32(b, v)\<close> on a 4-byte buffer \<open>b\<close>: its contents afterwards.\<close>

definition PutUint32 :: "uint32 \<Rightarrow> byte list" where
  "PutUint32 v = [ucast (drop_bit 24 v), ucast (drop_bit 16 v), ucast (drop_bit 8 v), ucast v]"

text \<open>The number a byte sequence denotes as an unsigned integer in big-endian order.\<close>

definition be_value :: "byte list \<Rightarrow> nat" where
  "be_value bs = foldl (\<lambda>a b. a * 256 + unat b) 0 bs"

section \<open>calculateCRC32\<close>

text \<open>The \<^verbatim>\<open>for\<close> loop of \<^verbatim>\<open>calculateCRC32\<close>: \<open>Inl err\<close> is \<^verbatim>\<open>return 0, err\<close>, \<open>Inr hash\<close> is
  the \<^verbatim>\<open>break\<close> at \<^verbatim>\<open>io.EOF\<close>.\<close>

lemma file_Read_shrinks:
  "file_Read f n = ((bs, None), f') \<Longrightarrow> 0 < n \<Longrightarrow>
   length (plan f') + length (content f') < length (plan f) + length (content f)"
  by (auto split: list.splits read_event.splits if_splits)

function read_loop :: "digest \<Rightarrow> os_file \<Rightarrow> go_error + digest" where
  "read_loop hash f =
     (case file_Read f BUFFER_SIZE of
        ((buf, err), f') \<Rightarrow>
          (let hash' = (if length buf > 0 then digest_Write hash buf else hash)
           in if err = Some EOF then Inr hash'
              else (case err of
                      Some e \<Rightarrow> Inl e
                    | None \<Rightarrow> read_loop hash' f')))"
  by pat_completeness auto
termination
proof (relation "measure (\<lambda>(hash, f). length (plan f) + length (content f))")
  show "wf (measure (\<lambda>(hash, f). length (plan f) + length (content f)))"
    by simp
next
  fix hash :: digest and f :: os_file and x f' buf err hash'
  assume "(x, f') = file_Read f BUFFER_SIZE" and "(buf, err) = x" and "err = None"
  then have "file_Read f BUFFER_SIZE = ((buf, None), f')"
    by simp
  then show "((hash', f'), (hash, f)) \<in> measure (\<lambda>(hash, f). length (plan f) + length (content f))"
    using file_Read_shrinks [of f BUFFER_SIZE buf f'] by (simp add: BUFFER_SIZE_def)
qed

declare read_loop.simps [simp del]

definition calculateCRC32 :: "env \<Rightarrow> string \<Rightarrow> (go_error + uint32) \<times> event list" where
  "calculateCRC32 e filePath =
     (case fs_Open e filePath of
        Inl err \<Rightarrow> (Inl err, [Open filePath])
      | Inr f \<Rightarrow>
          (case read_loop NewIEEE f of
             Inl err \<Rightarrow> (Inl err, [Open filePath, FileClose])
           | Inr hash \<Rightarrow> (Inr (Sum32 hash), [Open filePath, FileClose])))"

section \<open>sendFirmware\<close>

text \<open>
  The connection loop (\<^verbatim>\<open>for { conn, err = net.Dial(...) ... }\<close>). \<open>k\<close> counts the calls
  made so far, \<open>evs\<close> is what has happened so far. The loop has no exit but a successful
  call, so it need not return: \<open>None\<close> is the run that dials for ever.
\<close>

partial_function (option) dial_loop :: "env \<Rightarrow> string \<Rightarrow> nat \<Rightarrow> event list \<Rightarrow> event list option" where
  "dial_loop e serverIP k evs =
     (case net_Dial e serverIP SERVER_PORT k of
        None \<Rightarrow> Some (evs @ [Dial serverIP SERVER_PORT, Print (MsgConnected serverIP SERVER_PORT)])
      | Some err \<Rightarrow>
          dial_loop e serverIP (Suc k)
            (evs @ [Dial serverIP SERVER_PORT, Print (MsgConnFailed err), Sleep 3]))"

text \<open>The Go slice expression \<^verbatim>\<open>xs[i:j]\<close> for \<open>i \<le> j \<le> len(xs)\<close>.\<close>

definition slice :: "'a list \<Rightarrow> nat \<Rightarrow> nat \<Rightarrow> 'a list" where
  "slice xs i j = take (j - i) (drop i xs)"

text \<open>
  The chunk loop (\<^verbatim>\<open>for i := 0; i < firmwareSize; i += BUFFER_SIZE\<close>), from the value \<open>i\<close>
  of the loop variable and the connection \<open>c\<close>. The result is what the loop did and the
  connection it leaves when it runs to its end; \<open>None\<close> is the \<^verbatim>\<open>return\<close> after a failed
  acknowledgment.
\<close>

function chunk_loop :: "byte list \<Rightarrow> nat \<Rightarrow> conn \<Rightarrow> event list \<times> conn option" where
  "chunk_loop firmwareData i c =
     (if i < length firmwareData then
        (let end = (if i + BUFFER_SIZE > length firmwareData then length firmwareData
                    else i + BUFFER_SIZE);
             chunk = slice firmwareData i end;
             c1 = snd (conn_Write c chunk);
             ackBuffer = fst (fst (io_ReadFull c1 (length ACK_MSG)));
             err = snd (fst (io_ReadFull c1 (length ACK_MSG)));
             c2 = snd (io_ReadFull c1 (length ACK_MSG))
         in if err \<noteq> None \<or> ackBuffer \<noteq> bytes ACK_MSG
            then ([Write (Chunk i) chunk, ReadFull (length ACK_MSG) ackBuffer err,
                   Print MsgTransmissionFailed], None)
            else (case chunk_loop firmwareData (i + BUFFER_SIZE) c2 of
                    (evs, r) \<Rightarrow>
                      ([Write (Chunk i) chunk, ReadFull (length ACK_MSG) ackBuffer err,
                        BarAdd (length chunk)] @ evs, r)))
      else ([], Some c))"
  by pat_completeness auto
termination
  by (relation "measure (\<lambda>(firmwareData, i, c). length firmwareData - i)")
     (auto simp: BUFFER_SIZE_def)

declare chunk_loop.simps [simp del]

text \<open>The last lines of \<^verbatim>\<open>sendFirmware\<close>, in \<^verbatim>\<open>gboot.go\<close> and in the second file (which
  prints an empty line first).\<close>

definition report :: "bool \<Rightarrow> event list" where
  "report failed = (if failed then [Print MsgVerifyFailed] else [Print MsgVerifyPassed])"

definition report2 :: "bool \<Rightarrow> event list" where
  "report2 failed =
     (if failed then [Print (MsgText []), Print MsgVerifyFailed]
      else [Print (MsgText []), Print MsgVerifyPassed])"

text \<open>
  \<^verbatim>\<open>sendFirmware\<close> from \<^verbatim>\<open>defer conn.Close()\<close> on, with the connection \<open>c0\<close> that
  \<^verbatim>\<open>net.Dial\<close> returned. The results of the three \<^verbatim>\<open>conn.Write\<close> calls are dropped, as
  in the source.
\<close>

definition transfer ::
  "(bool \<Rightarrow> event list) \<Rightarrow> conn \<Rightarrow> byte list \<Rightarrow> uint32 \<Rightarrow> outcome \<times> event list" where
  "transfer rep c0 firmwareData firmwareCRC32 =
     (let firmwareSize = length firmwareData;
          sizeBuffer = PutUint32 (of_nat firmwareSize);
          c1 = snd (conn_Write c0 sizeBuffer);
          start = [Write Header sizeBuffer, BarNew firmwareSize]
      in case chunk_loop firmwareData 0 c1 of
           (evs, None) \<Rightarrow> (TransmissionFailed, start @ evs @ [ConnClose])
         | (evs, Some c2) \<Rightarrow>
             (let crcBuffer = PutUint32 firmwareCRC32;
                  c3 = snd (conn_Write c2 crcBuffer);
                  crcResponse = fst (fst (io_ReadFull c3 (length CRC_OK_MSG)));
                  err = snd (fst (io_ReadFull c3 (length CRC_OK_MSG)));
                  failed = (err \<noteq> None \<or> crcResponse \<noteq> bytes CRC_OK_MSG)
              in (if failed then VerificationFailed else Success,
                  start @ evs @
                  [Write Checksum crcBuffer, Print (MsgUploadCompleted firmwareCRC32),
                   ReadFull (length CRC_OK_MSG) crcResponse err] @ rep failed @ [ConnClose])))"

text \<open>
  The body the two files share: they differ in the host (the constant \<^verbatim>\<open>SERVER_IP\<close> or
  the parameter \<^verbatim>\<open>serverIP\<close>) and in the final report.
\<close>

definition send_body ::
  "(bool \<Rightarrow> event list) \<Rightarrow> env \<Rightarrow> string \<Rightarrow> string \<Rightarrow> (outcome \<times> event list) option" where
  "send_body rep e firmwareFile serverIP =
     (case fs_ReadFile e firmwareFile of
        Inl err \<Rightarrow> Some (FileNotFound, [ReadFile firmwareFile, Print (MsgNotFound firmwareFile)])
      | Inr firmwareData \<Rightarrow>
          (let firmwareSize = length firmwareData;
               log1 = [ReadFile firmwareFile, Print (MsgSending firmwareFile firmwareSize)]
           in case calculateCRC32 e firmwareFile of
                (Inl err, log2) \<Rightarrow> Some (CRCFailure err, log1 @ log2 @ [Print (MsgCRCError err)])
              | (Inr firmwareCRC32, log2) \<Rightarrow>
                  (case dial_loop e serverIP 0
                          (log1 @ log2 @ [Print (MsgComputedCRC firmwareCRC32)]) of
                     None \<Rightarrow> None
                   | Some log3 \<Rightarrow>
                       (case transfer rep (net_conn e) firmwareData firmwareCRC32 of
                          (out, log4) \<Rightarrow> Some (out, log3 @ log4)))))"

text \<open>\<^verbatim>\<open>sendFirmware(firmwareFile)\<close> of \<^verbatim>\<open>gboot.go\<close>.\<close>

definition sendFirmware :: "env \<Rightarrow> string \<Rightarrow> (outcome \<times> event list) option" where
  "sendFirmware e firmwareFile = send_body report e firmwareFile SERVER_IP"

text \<open>\<^verbatim>\<open>sendFirmware(firmwareFile, serverIP)\<close> of the second file.\<close>

definition sendFirmware2 :: "env \<Rightarrow> string \<Rightarrow> string \<Rightarrow> (outcome \<times> event list) option" where
  "sendFirmware2 e firmwareFile serverIP = send_body report2 e firmwareFile serverIP"

text \<open>
  \<^verbatim>\<open>main\<close> of \<^verbatim>\<open>gboot.go\<close>, on \<^verbatim>\<open>os.Args\<close>: the exit status of the process and what it did.
  \<^verbatim>\<open>os.Exit(1)\<close> is status 1, a return from \<^verbatim>\<open>main\<close> is status 0.
\<close>

definition main :: "env \<Rightarrow> string list \<Rightarrow> (nat \<times> event list) option" where
  "main e args =
     (if length args < 2
      then Some (1, [Print (MsgText ''Usage: firmware_sender <firmware_file>''),
                     Print (MsgText ''       firmware_sender version  or  firmware_sender -v  (to check version)'')])
      else (let arg = args ! 1
            in if arg = ''version'' \<or> arg = ''-v'' then Some (0, [Print (MsgVersion VERSION)])
               else (case sendFirmware e arg of
                       None \<Rightarrow> None
                     | Some (out, evs) \<Rightarrow> Some (0, evs))))"

section \<open>The second file: isValidIP and main\<close>

text \<open>
  Regular expressions as far as the pattern of \<^verbatim>\<open>isValidIP\<close> needs them: a character
  class, alternation and concatenation; \<open>Opt r\<close> is \<^verbatim>\<open>r?\<close> and \<open>Rep n r\<close> is \<^verbatim>\<open>r{n}\<close>.
  The pattern is anchored at both ends (\<^verbatim>\<open>^...$\<close>, and Go's \<^verbatim>\<open>$\<close> matches at the end of
  the text only), so \<^verbatim>\<open>re.MatchString(s)\<close> holds when all of \<open>s\<close> matches the expression
  between the anchors. The matcher works by derivatives.
\<close>

datatype rexp = Zero | Eps | Class "char list" | Alt rexp rexp | Seq rexp rexp

definition Opt :: "rexp \<Rightarrow> rexp" where
  "Opt r = Alt r Eps"

fun Rep :: "nat \<Rightarrow> rexp \<Rightarrow> rexp" where
  "Rep 0 r = Eps"
| "Rep (Suc n) r = Seq r (Rep n r)"

fun nullable :: "rexp \<Rightarrow> bool" where
  "nullable Zero = False"
| "nullable Eps = True"
| "nullable (Class cs) = False"
| "nullable (Alt r s) = (nullable r \<or> nullable s)"
| "nullable (Seq r s) = (nullable r \<and> nullable s)"

fun deriv :: "char \<Rightarrow> rexp \<Rightarrow> rexp" where
  "deriv c Zero = Zero"
| "deriv c Eps = Zero"
| "deriv c (Class cs) = (if c \<in> set cs then Eps else Zero)"
| "deriv c (Alt r s) = Alt (deriv c r) (deriv c s)"
| "deriv c (Seq r s) =
     (if nullable r then Alt (Seq (deriv c r) s) (deriv c s) else Seq (deriv c r) s)"

fun matches :: "rexp \<Rightarrow> string \<Rightarrow> bool" where
  "matches r [] = nullable r"
| "matches r (c # cs) = matches (deriv c r) cs"

text \<open>\<^verbatim>\<open>(25[0-5]|2[0-4][0-9]|[01]?[0-9][0-9]?)\<close>\<close>

definition octet_re :: rexp where
  "octet_re =
     Alt (Seq (Class ''2'') (Seq (Class ''5'') (Class ''012345'')))
    (Alt (Seq (Class ''2'') (Seq (Class ''01234'') (Class ''0123456789'')))
         (Seq (Opt (Class ''01'')) (Seq (Class ''0123456789'') (Opt (Class ''0123456789'')))))"

text \<open>\<^verbatim>\<open>^((25[0-5]|2[0-4][0-9]|[01]?[0-9][0-9]?)\.){3}(25[0-5]|2[0-4][0-9]|[01]?[0-9][0-9]?)$\<close>\<close>

definition ip_re :: rexp where
  "ip_re = Seq (Rep 3 (Seq octet_re (Class ''.''))) octet_re"

definition isValidIP :: "string \<Rightarrow> bool" where
  "isValidIP ip = matches ip_re ip"

definition main2 :: "env \<Rightarrow> string list \<Rightarrow> (nat \<times> event list) option" where
  "main2 e args =
     (if length args < 2
      then Some (1, [Print (MsgText ''Usage: gboot <firmware_file> <server_ip>''),
                     Print (MsgText ''       gboot version  or  gboot -v  (to check version)'')])
      else (let arg = args ! 1
            in if arg = ''version'' \<or> arg = ''-v'' then Some (0, [Print (MsgVersion VERSION2)])
               else if length args < 3
               then Some (1, [Print (MsgText ''Usage: gboot <firmware_file> <server_ip>'')])
               else (let serverIP = args ! 2
                     in if \<not> isValidIP serverIP then Some (1, [Print (MsgInvalidIP serverIP)])
                        else (case sendFirmware2 e arg serverIP of
                                None \<Rightarrow> None
                              | Some (out, evs) \<Rightarrow> Some (0, evs)))))"

section \<open>The vocabulary of the specification\<close>

subsection \<open>Dotted quads\<close>

text \<open>
  A syntactically valid IPv4 dotted quad, in the words of the specification: four fields
  separated by dots, each field a decimal numeral of one to three digits that denotes a
  number from 0 to 255.
\<close>

definition is_digit :: "char \<Rightarrow> bool" where
  "is_digit c = (c \<in> set ''0123456789'')"

definition digit_val :: "char \<Rightarrow> nat" where
  "digit_val c = of_char c - 48"

definition dec_value :: "string \<Rightarrow> nat" where
  "dec_value s = foldl (\<lambda>a c. 10 * a + digit_val c) 0 s"

definition octet_ok :: "string \<Rightarrow> bool" where
  "octet_ok s = (s \<noteq> [] \<and> length s \<le> 3 \<and> list_all is_digit s \<and> dec_value s \<le> 255)"

fun split_dots :: "string \<Rightarrow> string list" where
  "split_dots [] = [[]]"
| "split_dots (c # cs) =
     (if c = CHR ''.'' then [] # split_dots cs
      else (case split_dots cs of
              [] \<Rightarrow> [[c]]
            | f # fs \<Rightarrow> (c # f) # fs))"

definition dotted_quad :: "string \<Rightarrow> bool" where
  "dotted_quad s = (length (split_dots s) = 4 \<and> list_all octet_ok (split_dots s))"

text \<open>The words a regular expression matches (used in the proofs only).\<close>

fun lang :: "rexp \<Rightarrow> string set" where
  "lang Zero = {}"
| "lang Eps = {[]}"
| "lang (Class cs) = {[c] | c. c \<in> set cs}"
| "lang (Alt r s) = lang r \<union> lang s"
| "lang (Seq r s) = {u @ v | u v. u \<in> lang r \<and> v \<in> lang s}"

subsection \<open>Well-behaved environments\<close>

text \<open>
  A file whose reads hand out its content: none of the planned reads fails, and each
  delivers at least one byte as long as there is one. (A read of 0 bytes before the end
  of the content is how a file looks that has been cut short in the meantime; the pass
  then sees less than \<open>content\<close>.)
\<close>

definition delivers_content :: "os_file \<Rightarrow> bool" where
  "delivers_content f =
     list_all (\<lambda>ev. case ev of Deliver k \<Rightarrow> 0 < k | Fault err \<Rightarrow> False) (plan f)"

subsection \<open>Runs\<close>

text \<open>
  The vocabulary in which the runs of \<^verbatim>\<open>sendFirmware\<close> are described: the stream of \<open>n\<close>
  acknowledgments, the number of chunks of an image of \<open>S\<close> bytes, what the chunk loop does
  for a chunk at offset \<open>i\<close> that is acknowledged, and what the connection loop does for
  \<open>N\<close> refused calls.
\<close>

definition acks :: "nat \<Rightarrow> byte list" where
  "acks n = concat (replicate n (bytes ACK_MSG))"

definition n_chunks :: "nat \<Rightarrow> nat" where
  "n_chunks S = (S + (BUFFER_SIZE - 1)) div BUFFER_SIZE"

definition acked_step :: "byte list \<Rightarrow> nat \<Rightarrow> event list" where
  "acked_step data i =
     [Write (Chunk i) (take BUFFER_SIZE (drop i data)),
      ReadFull (length ACK_MSG) (bytes ACK_MSG) None,
      BarAdd (length (take BUFFER_SIZE (drop i data)))]"

definition acked_steps :: "byte list \<Rightarrow> nat \<Rightarrow> nat \<Rightarrow> event list" where
  "acked_steps data i n = concat (map (\<lambda>j. acked_step data (i + BUFFER_SIZE * j)) [0..<n])"

definition refusals :: "env \<Rightarrow> string \<Rightarrow> nat \<Rightarrow> nat \<Rightarrow> event list" where
  "refusals e host k0 N =
     concat (map (\<lambda>k. [Dial host SERVER_PORT,
                        Print (MsgConnFailed (the (net_Dial e host SERVER_PORT (k0 + k)))),
                        Sleep 3]) [0..<N])"


text \<open>
  The run gets as far as a connection: the image loads (as \<open>data\<close>), the checksum pass
  returns \<open>cksum\<close>, and the calls of \<^verbatim>\<open>net.Dial\<close> fail \<open>N\<close> times before one connects.
  \<open>prelude\<close> is what such a run has done when \<^verbatim>\<open>net.Dial\<close> returns the connection.
\<close>

definition reaches_server :: "env \<Rightarrow> string \<Rightarrow> string \<Rightarrow> byte list \<Rightarrow> uint32 \<Rightarrow> nat \<Rightarrow> bool" where
  "reaches_server e firmwareFile host data cksum N =
     (fs_ReadFile e firmwareFile = Inr data \<and>
      fst (calculateCRC32 e firmwareFile) = Inr cksum \<and>
      (\<forall>k<N. net_Dial e host SERVER_PORT k \<noteq> None) \<and>
      net_Dial e host SERVER_PORT N = None)"

definition prelude :: "env \<Rightarrow> string \<Rightarrow> string \<Rightarrow> byte list \<Rightarrow> uint32 \<Rightarrow> nat \<Rightarrow> event list" where
  "prelude e firmwareFile host data cksum N =
     [ReadFile firmwareFile, Print (MsgSending firmwareFile (length data))] @
     snd (calculateCRC32 e firmwareFile) @ [Print (MsgComputedCRC cksum)] @
     refusals e host 0 N @ [Dial host SERVER_PORT, Print (MsgConnected host SERVER_PORT)]"

text \<open>What \<^verbatim>\<open>io.ReadFull\<close> yields for a buffer of \<open>n\<close> bytes when the peer's remaining stream
  is \<open>rest\<close>.\<close>

definition reply :: "conn \<Rightarrow> byte list \<Rightarrow> nat \<Rightarrow> byte list \<times> go_error option" where
  "reply c rest n = fst (io_ReadFull (c\<lparr>rx := rest\<rparr>) n)"

text \<open>Projections of a run: the writes to the connection, the chunk writes with their
  offsets, and the events that touch the network.\<close>

definition writes :: "event list \<Rightarrow> (wkind \<times> byte list) list" where
  "writes tr = List.map_filter (\<lambda>ev. case ev of Write k p \<Rightarrow> Some (k, p) | _ \<Rightarrow> None) tr"

definition chunks_sent :: "event list \<Rightarrow> (nat \<times> byte list) list" where
  "chunks_sent tr =
     List.map_filter (\<lambda>ev. case ev of Write (Chunk i) p \<Rightarrow> Some (i, p) | _ \<Rightarrow> None) tr"

fun is_network :: "event \<Rightarrow> bool" where
  "is_network (Dial host port) = True"
| "is_network (Write k p) = True"
| "is_network (ReadFull n buf err) = True"
| "is_network ConnClose = True"
| "is_network _ = False"

text \<open>The reads and writes on the connection.\<close>

fun is_conn_io :: "event \<Rightarrow> bool" where
  "is_conn_io (Write k p) = True"
| "is_conn_io (ReadFull n buf err) = True"
| "is_conn_io _ = False"

text \<open>The calls of \<^verbatim>\<open>net.Dial\<close> and the waits between them.\<close>

fun is_dial_or_sleep :: "event \<Rightarrow> bool" where
  "is_dial_or_sleep (Dial host port) = True"
| "is_dial_or_sleep (Sleep n) = True"
| "is_dial_or_sleep _ = False"

text \<open>The loads of the image, the openings of the file, and the reads on the connection that
  returned an error.\<close>

fun is_ReadFile :: "event \<Rightarrow> bool" where
  "is_ReadFile (ReadFile p) = True"
| "is_ReadFile _ = False"

fun is_Open :: "event \<Rightarrow> bool" where
  "is_Open (Open p) = True"
| "is_Open _ = False"

fun is_failed_read :: "event \<Rightarrow> bool" where
  "is_failed_read (ReadFull n buf (Some err)) = True"
| "is_failed_read _ = False"

text \<open>The payloads of the checksum writes of a run.\<close>

definition trailer :: "event list \<Rightarrow> byte list list" where
  "trailer tr = map snd (filter (\<lambda>w. fst w = Checksum) (writes tr))"

subsection \<open>Sample runs\<close>

text \<open>A 300-byte image in the file \<^verbatim>\<open>fw.bin\<close>, read in short pieces by the checksum pass; a
  server that refuses two connections and then acknowledges everything.\<close>

definition image300 :: "byte list" where
  "image300 = replicate 300 0xA5"

definition env300 :: env where
  "env300 =
     \<lparr>fs_ReadFile = (\<lambda>p. if p = ''fw.bin'' then Inr image300 else Inl (OSError ''no such file'')),
      fs_Open = (\<lambda>p. if p = ''fw.bin''
                      then Inr \<lparr>content = image300, plan = [Deliver 7, Deliver 1000]\<rparr>
                      else Inl (OSError ''no such file'')),
      net_Dial = (\<lambda>host port k. if k < 2 then Some (OSError ''connection refused'') else None),
      net_conn = \<lparr>rx = bytes ''ACKACKCRC_OK'', rx_err = EOF, tx_errs = []\<rparr>\<rparr>"

text \<open>Other runs on the file \<^verbatim>\<open>fw.bin\<close>: the image, the stream the server sends before it
  closes the connection, and the number of calls of \<^verbatim>\<open>net.Dial\<close> it refuses.\<close>

definition sample_env :: "byte list \<Rightarrow> byte list \<Rightarrow> nat \<Rightarrow> env" where
  "sample_env img stream refused =
     \<lparr>fs_ReadFile = (\<lambda>p. if p = ''fw.bin'' then Inr img else Inl (OSError ''no such file'')),
      fs_Open = (\<lambda>p. if p = ''fw.bin'' then Inr \<lparr>content = img, plan = []\<rparr>
                      else Inl (OSError ''no such file'')),
      net_Dial = (\<lambda>host port k. if k < refused then Some (OSError ''connection refused'')
                                else None),
      net_conn = \<lparr>rx = stream, rx_err = EOF, tx_errs = []\<rparr>\<rparr>"

text \<open>A server that refuses every connection.\<close>

definition unreachable_env :: env where
  "unreachable_env =
     (sample_env image300 [] 0)
       \<lparr>net_Dial := (\<lambda>host port k. Some (OSError ''connection refused''))\<rparr>"

text \<open>The checksum pass meets a read error after 100 bytes.\<close>

definition faulty_env :: env where
  "faulty_env =
     (sample_env image300 [] 0)
       \<lparr>fs_Open := (\<lambda>p. Inr \<lparr>content = image300,
                               plan = [Deliver 100, Fault (OSError ''input/output error'')]\<rparr>)\<rparr>"

text \<open>The file changes between \<^verbatim>\<open>os.ReadFile\<close> and \<^verbatim>\<open>os.Open\<close>: the first sees one byte,
  the second an empty file.\<close>

definition stale_env :: env where
  "stale_env =
     (sample_env [0xFF] (bytes ''ACKCRC_OK'') 0)
       \<lparr>fs_Open := (\<lambda>p. Inr \<lparr>content = [], plan = []\<rparr>)\<rparr>"

section \<open>Proofs\<close>

subsection \<open>The checksum\<close>

lemma simpleUpdate_Nil: "simpleUpdate c tab [] = c"
  by (simp add: simpleUpdate_def)

lemma simpleUpdate_append:
  "simpleUpdate (simpleUpdate c tab xs) tab ys = simpleUpdate c tab (xs @ ys)"
  by (simp add: simpleUpdate_def)

lemma digest_Write_Nil: "digest_Write d [] = d"
  by (simp add: digest_Write_def simpleUpdate_Nil)

lemma digest_Write_append: "digest_Write (digest_Write d xs) ys = digest_Write d (xs @ ys)"
  by (simp add: digest_Write_def simpleUpdate_append)

lemma BUFFER_SIZE_pos: "BUFFER_SIZE \<noteq> 0" "0 < BUFFER_SIZE"
  by (simp_all add: BUFFER_SIZE_def)

lemma read_loop_step:
  "file_Read f BUFFER_SIZE = ((buf, None), f') \<Longrightarrow>
   read_loop hash f = read_loop (digest_Write hash buf) f'"
  by (subst read_loop.simps) (simp del: file_Read.simps add: digest_Write_Nil)

lemma read_loop_eof:
  "file_Read f BUFFER_SIZE = ((buf, Some EOF), f') \<Longrightarrow>
   read_loop hash f = Inr (digest_Write hash buf)"
  by (subst read_loop.simps) (simp del: file_Read.simps add: digest_Write_Nil)

lemma read_loop_err:
  "file_Read f BUFFER_SIZE = ((buf, Some err), f') \<Longrightarrow> err \<noteq> EOF \<Longrightarrow>
   read_loop hash f = Inl err"
  by (subst read_loop.simps) (simp del: file_Read.simps)

text \<open>A read of 0 bytes ends the loop, whatever is left of the content.\<close>

lemma read_loop_zero_read:
  "plan f = Deliver 0 # rest \<Longrightarrow> read_loop hash f = Inr hash"
  by (subst read_loop.simps) (simp add: BUFFER_SIZE_pos)

text \<open>However the reads cut the content up, the loop has written all of it to the digest
  when it meets the end of the file.\<close>

lemma read_loop_delivers_content:
  "delivers_content f \<Longrightarrow> read_loop hash f = Inr (digest_Write hash (content f))"
proof (induction "length (plan f) + length (content f)" arbitrary: f hash rule: less_induct)
  case less
  show ?case
  proof (cases "content f = []")
    case True
    have "\<exists>f'. file_Read f BUFFER_SIZE = (([], Some EOF), f')"
      using True less.prems
      by (auto simp: delivers_content_def BUFFER_SIZE_pos split: list.splits read_event.splits)
    then show ?thesis
      using True by (auto simp: read_loop_eof)
  next
    case False
    obtain m where m: "m = (case plan f of [] \<Rightarrow> BUFFER_SIZE
                            | Deliver k # rest \<Rightarrow> min k BUFFER_SIZE | _ \<Rightarrow> 0)"
      by simp
    let ?f' = "f\<lparr>content := drop m (content f), plan := tl (plan f)\<rparr>"
    have rd: "file_Read f BUFFER_SIZE = ((take m (content f), None), ?f')"
      using False less.prems m
      by (auto simp: delivers_content_def BUFFER_SIZE_pos split: list.splits read_event.splits)
    have nf: "delivers_content ?f'"
      using less.prems by (cases "plan f") (auto simp: delivers_content_def)
    have "length (plan ?f') + length (content ?f') < length (plan f) + length (content f)"
      using file_Read_shrinks [OF rd] by (simp add: BUFFER_SIZE_def)
    then have "read_loop (digest_Write hash (take m (content f))) ?f' =
               Inr (digest_Write (digest_Write hash (take m (content f))) (content ?f'))"
      using less.hyps nf by blast
    then show ?thesis
      by (simp add: read_loop_step [OF rd] digest_Write_append)
  qed
qed

lemma calculateCRC32_delivers_content:
  "fs_Open e p = Inr f \<Longrightarrow> delivers_content f \<Longrightarrow>
   calculateCRC32 e p = (Inr (ChecksumIEEE (content f)), [Open p, FileClose])"
  by (simp add: calculateCRC32_def read_loop_delivers_content Sum32_def digest_Write_def
      NewIEEE_def ChecksumIEEE_def)

lemma IEEETable_0: "IEEETable 0 = 0"
  by (simp add: IEEETable_def simpleMakeTable_def crc_round_def funpow_swap1 eval_nat_numeral)

lemma ChecksumIEEE_Nil: "ChecksumIEEE [] = 0"
  by (simp add: ChecksumIEEE_def simpleUpdate_def)

lemma ChecksumIEEE_ff: "ChecksumIEEE [0xFF] = 0xFF000000"
  by code_simp

text \<open>The model computes the check value of CRC-32, that of the ASCII digits 1 to 9.\<close>

lemma ChecksumIEEE_check_value: "ChecksumIEEE (bytes ''123456789'') = 0xCBF43926"
proof -
  define f where "f = (\<lambda>(crc :: uint32) (v :: byte). IEEETable (ucast crc XOR v) XOR drop_bit 8 crc)"
  have s1: "f 0xFFFFFFFF 0x31 = 0x7C231048"
    unfolding f_def by code_simp
  have s2: "f 0x7C231048 0x32 = 0xB0ACBB32"
    unfolding f_def by code_simp
  have s3: "f 0xB0ACBB32 0x33 = 0x77B79C2D"
    unfolding f_def by code_simp
  have s4: "f 0x77B79C2D 0x34 = 0x641C1F5C"
    unfolding f_def by code_simp
  have s5: "f 0x641C1F5C 0x35 = 0x340AC5E3"
    unfolding f_def by code_simp
  have s6: "f 0x340AC5E3 0x36 = 0xF68D2C9E"
    unfolding f_def by code_simp
  have s7: "f 0xF68D2C9E 0x37 = 0xAFFC9660"
    unfolding f_def by code_simp
  have s8: "f 0xAFFC9660 0x38 = 0x651F2550"
    unfolding f_def by code_simp
  have s9: "f 0x651F2550 0x39 = 0x340BC6D9"
    unfolding f_def by code_simp
  have start: "NOT (0 :: uint32) = 0xFFFFFFFF"
    by simp
  have finish: "NOT (0x340BC6D9 :: uint32) = 0xCBF43926"
    by simp
  have input: "bytes ''123456789'' = [0x31, 0x32, 0x33, 0x34, 0x35, 0x36, 0x37, 0x38, 0x39]"
    by (simp add: bytes_def)
  have "foldl f 0xFFFFFFFF [0x31, 0x32, 0x33, 0x34, 0x35, 0x36, 0x37, 0x38, 0x39] = 0x340BC6D9"
    by (simp only: foldl.simps s1 s2 s3 s4 s5 s6 s7 s8 s9)
  then show ?thesis
    unfolding ChecksumIEEE_def simpleUpdate_def input start f_def [symmetric]
    by (simp only: finish)
qed

text \<open>
  C4. Whenever the file opens and its reads hand out its content (none fails, and each
  delivers at least one byte before the end), \<^verbatim>\<open>calculateCRC32\<close> returns the IEEE CRC-32
  of the whole content of the file, whatever the sizes of the pieces the reads deliver:
  the value is that of one \<^verbatim>\<open>Write\<close> of the whole content to a fresh digest, it is the
  same for every other such plan of reads of the same content, and for an empty file it
  is the CRC-32 of no bytes.
\<close>

theorem calculateCRC32_whole_content:
  assumes "fs_Open e filePath = Inr f" and "delivers_content f"
  shows "fst (calculateCRC32 e filePath) = Inr (ChecksumIEEE (content f)) \<and>
         ChecksumIEEE (content f) = Sum32 (digest_Write NewIEEE (content f)) \<and>
         (\<forall>g. delivers_content g \<and> content g = content f \<longrightarrow>
              read_loop NewIEEE g = read_loop NewIEEE f) \<and>
         (content f = [] \<longrightarrow> fst (calculateCRC32 e filePath) = Inr (ChecksumIEEE []))"
proof (intro conjI)
  show whole: "fst (calculateCRC32 e filePath) = Inr (ChecksumIEEE (content f))"
    using assms by (simp add: calculateCRC32_delivers_content)
  show "ChecksumIEEE (content f) = Sum32 (digest_Write NewIEEE (content f))"
    by (simp add: ChecksumIEEE_def Sum32_def digest_Write_def NewIEEE_def)
  show "\<forall>g. delivers_content g \<and> content g = content f \<longrightarrow>
            read_loop NewIEEE g = read_loop NewIEEE f"
    using assms(2) by (simp add: read_loop_delivers_content)
  show "content f = [] \<longrightarrow> fst (calculateCRC32 e filePath) = Inr (ChecksumIEEE [])"
    using whole by auto
qed

theorem calculateCRC32_whole_content_witness:
  "fst (calculateCRC32 env300 ''fw.bin'') = Inr (ChecksumIEEE image300) \<and>
   read_loop NewIEEE \<lparr>content = image300, plan = []\<rparr> =
   read_loop NewIEEE \<lparr>content = image300, plan = [Deliver 7, Deliver 1000]\<rparr> \<and>
   fst (calculateCRC32 (sample_env [] [] 0) ''fw.bin'') = Inr 0"
proof -
  let ?f = "\<lparr>content = image300, plan = [Deliver 7, Deliver 1000]\<rparr>"
  let ?g = "\<lparr>content = [], plan = []\<rparr> :: os_file"
  have 1: "fs_Open env300 ''fw.bin'' = Inr ?f"
    by (simp add: env300_def)
  have 2: "delivers_content ?f"
    by (simp add: delivers_content_def)
  have 3: "delivers_content \<lparr>content = image300, plan = []\<rparr>"
    by (simp add: delivers_content_def)
  have 4: "fs_Open (sample_env [] [] 0) ''fw.bin'' = Inr ?g"
    by (simp add: sample_env_def)
  have 5: "delivers_content ?g"
    by (simp add: delivers_content_def)
  from calculateCRC32_whole_content [OF 4 5]
  have "fst (calculateCRC32 (sample_env [] [] 0) ''fw.bin'') = Inr 0"
    by (simp add: ChecksumIEEE_Nil)
  with calculateCRC32_whole_content [OF 1 2] 3 show ?thesis
    by simp
qed

subsection \<open>The connection loop and the chunk loop\<close>

declare conn_Write.simps [simp del]

declare io_ReadFull.simps [simp del]

lemma refusals_Suc:
  "refusals e host k0 (Suc N) =
   [Dial host SERVER_PORT, Print (MsgConnFailed (the (net_Dial e host SERVER_PORT k0))), Sleep 3]
   @ refusals e host (Suc k0) N"
proof -
  have "[0..<Suc N] = 0 # map Suc [0..<N]"
    by (simp add: upt_conv_Cons map_Suc_upt del: upt_Suc)
  then show ?thesis
    by (simp add: refusals_def comp_def del: upt_Suc)
qed

lemma dial_loop_connects:
  "(\<forall>k<N. net_Dial e host SERVER_PORT (k0 + k) \<noteq> None) \<Longrightarrow>
   net_Dial e host SERVER_PORT (k0 + N) = None \<Longrightarrow>
   dial_loop e host k0 evs =
   Some (evs @ refusals e host k0 N @ [Dial host SERVER_PORT, Print (MsgConnected host SERVER_PORT)])"
proof (induction N arbitrary: k0 evs)
  case 0
  then show ?case
    by (subst dial_loop.simps) (simp add: refusals_def)
next
  case (Suc N)
  from Suc.prems(1) obtain err where err: "net_Dial e host SERVER_PORT k0 = Some err"
    by force
  have "\<forall>k<N. net_Dial e host SERVER_PORT (Suc k0 + k) \<noteq> None"
    using Suc.prems(1) by (metis add_Suc_shift Suc_less_eq)
  moreover have "net_Dial e host SERVER_PORT (Suc k0 + N) = None"
    using Suc.prems(2) by simp
  ultimately have "dial_loop e host (Suc k0) (evs @ [Dial host SERVER_PORT, Print (MsgConnFailed err), Sleep 3]) =
    Some ((evs @ [Dial host SERVER_PORT, Print (MsgConnFailed err), Sleep 3]) @ refusals e host (Suc k0) N
          @ [Dial host SERVER_PORT, Print (MsgConnected host SERVER_PORT)])"
    by (rule Suc.IH)
  then show ?case
    using err by (subst dial_loop.simps) (simp add: refusals_Suc)
qed

lemma dial_loop_never:
  assumes "\<forall>k. net_Dial e host SERVER_PORT k \<noteq> None"
  shows "dial_loop e host k evs = None"
proof (cases "dial_loop e host k evs")
  case None
  then show ?thesis .
next
  case (Some r)
  have "\<not> (e = e \<and> host = host)"
    using Some
  proof (rule dial_loop.raw_induct [where P = "\<lambda>e' h k evs y. \<not> (e' = e \<and> h = host)", rotated])
    fix dl e' h k' evs' y
    assume IH: "\<And>e' h k evs y. dl e' h k evs = Some y \<Longrightarrow> \<not> (e' = e \<and> h = host)"
      and step: "(case net_Dial e' h SERVER_PORT k' of
                    None \<Rightarrow> Some (evs' @ [Dial h SERVER_PORT, Print (MsgConnected h SERVER_PORT)])
                  | Some err \<Rightarrow> dl e' h (Suc k')
                      (evs' @ [Dial h SERVER_PORT, Print (MsgConnFailed err), Sleep 3])) = Some y"
    show "\<not> (e' = e \<and> h = host)"
    proof
      assume eq: "e' = e \<and> h = host"
      then obtain err where "net_Dial e' h SERVER_PORT k' = Some err"
        using assms by force
      with step eq have "dl e host (Suc k')
          (evs' @ [Dial host SERVER_PORT, Print (MsgConnFailed err), Sleep 3]) = Some y"
        by simp
      from IH [OF this] show False
        by simp
    qed
  qed
  then show ?thesis
    by simp
qed

lemma conn_Write_fields:
  "rx (snd (conn_Write c p)) = rx c"
  "rx_err (snd (conn_Write c p)) = rx_err c"
  "tx_errs (snd (conn_Write c p)) = tl (tx_errs c)"
  by (auto simp: conn_Write.simps split: list.splits)

lemma conn_Write_eq: "snd (conn_Write c p) = c\<lparr>tx_errs := tl (tx_errs c)\<rparr>"
  by (cases c) (auto simp: conn_Write.simps split: list.splits)

lemma slice_chunk:
  "i < length data \<Longrightarrow>
   slice data i (if i + BUFFER_SIZE > length data then length data else i + BUFFER_SIZE) =
   take BUFFER_SIZE (drop i data)"
  by (simp add: slice_def)

lemma chunk_loop_done: "\<not> i < length data \<Longrightarrow> chunk_loop data i c = ([], Some c)"
  by (subst chunk_loop.simps) simp

lemma chunk_loop_ack:
  assumes "i < length data"
    and "io_ReadFull (snd (conn_Write c (take BUFFER_SIZE (drop i data)))) (length ACK_MSG) =
         ((bytes ACK_MSG, None), c2)"
  shows "chunk_loop data i c =
         (acked_step data i @ fst (chunk_loop data (i + BUFFER_SIZE) c2),
          snd (chunk_loop data (i + BUFFER_SIZE) c2))"
  using assms
  by (subst chunk_loop.simps)
     (simp add: slice_chunk acked_step_def Let_def split: prod.splits)

lemma chunk_loop_nak:
  assumes "i < length data"
    and "io_ReadFull (snd (conn_Write c (take BUFFER_SIZE (drop i data)))) (length ACK_MSG) =
         ((buf, err), c2)"
    and "err \<noteq> None \<or> buf \<noteq> bytes ACK_MSG"
  shows "chunk_loop data i c =
         ([Write (Chunk i) (take BUFFER_SIZE (drop i data)), ReadFull (length ACK_MSG) buf err,
           Print MsgTransmissionFailed], None)"
  using assms
  by (subst chunk_loop.simps)
     (simp add: slice_chunk Let_def split: prod.splits)

lemma length_bytes [simp]: "length (bytes s) = length s"
  by (simp add: bytes_def)

lemma io_ReadFull_token:
  "rx c = bytes tok @ rest \<Longrightarrow>
   io_ReadFull c (length tok) = ((bytes tok, None), c\<lparr>rx := rest\<rparr>)"
  by (simp add: io_ReadFull.simps)

lemma io_ReadFull_reply: "fst (io_ReadFull c n) = reply c (rx c) n"
  by (simp add: reply_def io_ReadFull.simps)

lemma reply_ok_iff:
  "snd (reply c rest (length tok)) = None \<and> fst (reply c rest (length tok)) = bytes tok \<longleftrightarrow>
   take (length tok) rest = bytes tok"
  by (auto simp: reply_def io_ReadFull.simps)

lemma reply_conn_Write: "reply (snd (conn_Write c p)) rest n = reply c rest n"
  by (simp add: reply_def conn_Write_eq io_ReadFull.simps)

lemma reply_update: "reply (c\<lparr>rx := r, tx_errs := es\<rparr>) rest n = reply c rest n"
  by (simp add: reply_def io_ReadFull.simps)

lemma acks_Suc: "acks (Suc n) = bytes ACK_MSG @ acks n"
  by (simp add: acks_def)

lemma acked_steps_0: "acked_steps data i 0 = []"
  by (simp add: acked_steps_def)

lemma acked_steps_Suc:
  "acked_steps data i (Suc n) = acked_step data i @ acked_steps data (i + BUFFER_SIZE) n"
proof -
  have "[0..<Suc n] = 0 # map Suc [0..<n]"
    by (simp add: upt_conv_Cons map_Suc_upt del: upt_Suc)
  then show ?thesis
    by (simp add: acked_steps_def comp_def add.assoc del: upt_Suc)
qed

lemma n_chunks_0: "n_chunks S = 0 \<longleftrightarrow> S = 0"
  unfolding n_chunks_def BUFFER_SIZE_def by (simp, arith)

lemma n_chunks_Suc:
  "n_chunks (S - i) = Suc n \<Longrightarrow> i < S \<and> n_chunks (S - (i + BUFFER_SIZE)) = n"
  unfolding n_chunks_def BUFFER_SIZE_def by (simp, arith)

lemma chunk_loop_all_acked:
  "rx c = acks n @ rest \<Longrightarrow> n_chunks (length data - i) = n \<Longrightarrow>
   chunk_loop data i c =
   (acked_steps data i n, Some (c\<lparr>rx := rest, tx_errs := drop n (tx_errs c)\<rparr>))"
proof (induction n arbitrary: i c)
  case 0
  then have "\<not> i < length data"
    by (simp add: n_chunks_0)
  with 0 show ?case
    by (simp add: chunk_loop_done acked_steps_0 acks_def)
next
  case (Suc n)
  from n_chunks_Suc [OF Suc.prems(2)]
  have lt: "i < length data" and n: "n_chunks (length data - (i + BUFFER_SIZE)) = n"
    by simp_all
  let ?c1 = "snd (conn_Write c (take BUFFER_SIZE (drop i data)))"
  let ?c2 = "?c1\<lparr>rx := acks n @ rest\<rparr>"
  have "rx ?c1 = bytes ACK_MSG @ acks n @ rest"
    using Suc.prems(1) by (simp add: conn_Write_fields acks_Suc)
  then have rd: "io_ReadFull ?c1 (length ACK_MSG) = ((bytes ACK_MSG, None), ?c2)"
    by (rule io_ReadFull_token)
  have "chunk_loop data (i + BUFFER_SIZE) ?c2 =
        (acked_steps data (i + BUFFER_SIZE) n,
         Some (?c2\<lparr>rx := rest, tx_errs := drop n (tx_errs ?c2)\<rparr>))"
    by (rule Suc.IH) (simp_all add: n)
  moreover have "?c2\<lparr>rx := rest, tx_errs := drop n (tx_errs ?c2)\<rparr> =
                 c\<lparr>rx := rest, tx_errs := drop (Suc n) (tx_errs c)\<rparr>"
    by (simp add: conn_Write_eq drop_Suc)
  ultimately show ?case
    by (simp add: chunk_loop_ack [OF lt rd] acked_steps_Suc)
qed

lemma chunk_loop_nak_at:
  assumes "rx c = acks k @ rest" and "take (length ACK_MSG) rest \<noteq> bytes ACK_MSG"
    and "i + BUFFER_SIZE * k < length data"
  shows "chunk_loop data i c =
         (acked_steps data i k @
          [Write (Chunk (i + BUFFER_SIZE * k)) (take BUFFER_SIZE (drop (i + BUFFER_SIZE * k) data)),
           ReadFull (length ACK_MSG)
             (fst (fst (io_ReadFull (c\<lparr>rx := rest\<rparr>) (length ACK_MSG))))
             (snd (fst (io_ReadFull (c\<lparr>rx := rest\<rparr>) (length ACK_MSG)))),
           Print MsgTransmissionFailed], None)"
  using assms
proof (induction k arbitrary: i c)
  case 0
  let ?c1 = "snd (conn_Write c (take BUFFER_SIZE (drop i data)))"
  obtain buf err c2 where rd: "io_ReadFull ?c1 (length ACK_MSG) = ((buf, err), c2)"
    by (metis surj_pair)
  have rx: "rx ?c1 = rest" "rx_err ?c1 = rx_err c"
    using "0.prems"(1) by (simp_all add: conn_Write_fields acks_def)
  have same: "fst (io_ReadFull (c\<lparr>rx := rest\<rparr>) (length ACK_MSG)) = (buf, err)"
    using rd rx by (auto simp: io_ReadFull.simps split: if_splits)
  have bad: "err \<noteq> None \<or> buf \<noteq> bytes ACK_MSG"
    using rd rx "0.prems"(2) by (auto simp: io_ReadFull.simps split: if_splits)
  from "0.prems"(3) have lt: "i < length data"
    by simp
  show ?case
    using chunk_loop_nak [OF lt rd bad] same by (simp add: acked_steps_0)
next
  case (Suc k)
  from Suc.prems(3) have lt: "i < length data" and lt': "(i + BUFFER_SIZE) + BUFFER_SIZE * k < length data"
    by (simp_all add: BUFFER_SIZE_def)
  let ?c1 = "snd (conn_Write c (take BUFFER_SIZE (drop i data)))"
  let ?c2 = "?c1\<lparr>rx := acks k @ rest\<rparr>"
  have "rx ?c1 = bytes ACK_MSG @ acks k @ rest"
    using Suc.prems(1) by (simp add: conn_Write_fields acks_Suc)
  then have rd: "io_ReadFull ?c1 (length ACK_MSG) = ((bytes ACK_MSG, None), ?c2)"
    by (rule io_ReadFull_token)
  have same: "fst (io_ReadFull (?c2\<lparr>rx := rest\<rparr>) (length ACK_MSG)) =
              fst (io_ReadFull (c\<lparr>rx := rest\<rparr>) (length ACK_MSG))"
    by (simp add: conn_Write_eq io_ReadFull.simps)
  have "chunk_loop data (i + BUFFER_SIZE) ?c2 =
         (acked_steps data (i + BUFFER_SIZE) k @
          [Write (Chunk (i + BUFFER_SIZE + BUFFER_SIZE * k))
             (take BUFFER_SIZE (drop (i + BUFFER_SIZE + BUFFER_SIZE * k) data)),
           ReadFull (length ACK_MSG)
             (fst (fst (io_ReadFull (?c2\<lparr>rx := rest\<rparr>) (length ACK_MSG))))
             (snd (fst (io_ReadFull (?c2\<lparr>rx := rest\<rparr>) (length ACK_MSG)))),
           Print MsgTransmissionFailed], None)"
    by (rule Suc.IH) (simp_all add: Suc.prems(2) lt')
  then show ?case
    unfolding same
    by (simp add: chunk_loop_ack [OF lt rd] acked_steps_Suc add.assoc)
qed

subsection \<open>The runs of the transfer\<close>

lemma transfer_acked:
  assumes "rx c0 = acks (n_chunks (length data)) @ rest"
  shows "transfer rep c0 data cksum =
         (if snd (reply c0 rest (length CRC_OK_MSG)) \<noteq> None \<or>
             fst (reply c0 rest (length CRC_OK_MSG)) \<noteq> bytes CRC_OK_MSG
          then VerificationFailed else Success,
          [Write Header (PutUint32 (of_nat (length data))), BarNew (length data)] @
          acked_steps data 0 (n_chunks (length data)) @
          [Write Checksum (PutUint32 cksum), Print (MsgUploadCompleted cksum),
           ReadFull (length CRC_OK_MSG) (fst (reply c0 rest (length CRC_OK_MSG)))
             (snd (reply c0 rest (length CRC_OK_MSG)))] @
          rep (snd (reply c0 rest (length CRC_OK_MSG)) \<noteq> None \<or>
               fst (reply c0 rest (length CRC_OK_MSG)) \<noteq> bytes CRC_OK_MSG) @
          [ConnClose])"
proof -
  let ?c1 = "snd (conn_Write c0 (PutUint32 (of_nat (length data))))"
  have "rx ?c1 = acks (n_chunks (length data)) @ rest"
    using assms by (simp add: conn_Write_fields)
  then have loop: "chunk_loop data 0 ?c1 =
     (acked_steps data 0 (n_chunks (length data)),
      Some (?c1\<lparr>rx := rest, tx_errs := drop (n_chunks (length data)) (tx_errs ?c1)\<rparr>))"
    by (rule chunk_loop_all_acked) simp
  show ?thesis
    by (simp add: transfer_def Let_def loop io_ReadFull_reply conn_Write_fields
        reply_conn_Write reply_update)
qed

lemma transfer_nak:
  assumes "rx c0 = acks k @ rest" and "take (length ACK_MSG) rest \<noteq> bytes ACK_MSG"
    and "BUFFER_SIZE * k < length data"
  shows "transfer rep c0 data cksum =
         (TransmissionFailed,
          [Write Header (PutUint32 (of_nat (length data))), BarNew (length data)] @
          acked_steps data 0 k @
          [Write (Chunk (BUFFER_SIZE * k)) (take BUFFER_SIZE (drop (BUFFER_SIZE * k) data)),
           ReadFull (length ACK_MSG) (fst (reply c0 rest (length ACK_MSG)))
             (snd (reply c0 rest (length ACK_MSG))),
           Print MsgTransmissionFailed, ConnClose])"
proof -
  let ?c1 = "snd (conn_Write c0 (PutUint32 (of_nat (length data))))"
  have rx: "rx ?c1 = acks k @ rest"
    using assms(1) by (simp add: conn_Write_fields)
  have loop: "chunk_loop data 0 ?c1 =
         (acked_steps data 0 k @
          [Write (Chunk (0 + BUFFER_SIZE * k)) (take BUFFER_SIZE (drop (0 + BUFFER_SIZE * k) data)),
           ReadFull (length ACK_MSG)
             (fst (fst (io_ReadFull (?c1\<lparr>rx := rest\<rparr>) (length ACK_MSG))))
             (snd (fst (io_ReadFull (?c1\<lparr>rx := rest\<rparr>) (length ACK_MSG)))),
           Print MsgTransmissionFailed], None)"
    by (rule chunk_loop_nak_at [OF rx assms(2)]) (simp add: assms(3))
  show ?thesis
    by (simp add: transfer_def Let_def loop reply_def [symmetric] reply_conn_Write)
qed

lemma send_body_connected:
  assumes "reaches_server e firmwareFile host data cksum N"
  shows "send_body rep e firmwareFile host =
         Some (fst (transfer rep (net_conn e) data cksum),
               prelude e firmwareFile host data cksum N @
               snd (transfer rep (net_conn e) data cksum))"
proof -
  from assms have rf: "fs_ReadFile e firmwareFile = Inr data"
    and crc: "fst (calculateCRC32 e firmwareFile) = Inr cksum"
    and fails: "\<forall>k<N. net_Dial e host SERVER_PORT (0 + k) \<noteq> None"
    and conn: "net_Dial e host SERVER_PORT (0 + N) = None"
    by (simp_all add: reaches_server_def)
  obtain log2 where c2: "calculateCRC32 e firmwareFile = (Inr cksum, log2)"
    using crc by (cases "calculateCRC32 e firmwareFile") auto
  show ?thesis
    unfolding send_body_def
    by (simp add: rf c2 dial_loop_connects [OF fails conn] prelude_def split: prod.splits)
qed

lemma send_body_not_found:
  "fs_ReadFile e firmwareFile = Inl err \<Longrightarrow>
   send_body rep e firmwareFile host =
   Some (FileNotFound, [ReadFile firmwareFile, Print (MsgNotFound firmwareFile)])"
  by (simp add: send_body_def)

lemma send_body_crc_failure:
  "fs_ReadFile e firmwareFile = Inr data \<Longrightarrow> fst (calculateCRC32 e firmwareFile) = Inl err \<Longrightarrow>
   send_body rep e firmwareFile host =
   Some (CRCFailure err,
         [ReadFile firmwareFile, Print (MsgSending firmwareFile (length data))] @
         snd (calculateCRC32 e firmwareFile) @ [Print (MsgCRCError err)])"
  by (cases "calculateCRC32 e firmwareFile") (simp add: send_body_def)

lemma send_body_never:
  "fs_ReadFile e firmwareFile = Inr data \<Longrightarrow> fst (calculateCRC32 e firmwareFile) = Inr cksum \<Longrightarrow>
   \<forall>k. net_Dial e host SERVER_PORT k \<noteq> None \<Longrightarrow>
   send_body rep e firmwareFile host = None"
  by (cases "calculateCRC32 e firmwareFile") (simp add: send_body_def dial_loop_never)

subsection \<open>Projections of a run, and the arithmetic of chunks\<close>

lemma n_chunks_ceiling: "int (n_chunks S) = \<lceil>real S / real BUFFER_SIZE\<rceil>"
proof -
  let ?n = "(S + 255) div 256"
  have "\<lceil>real S / 256\<rceil> = int ?n"
  proof (rule ceiling_unique)
    have a: "S \<le> 256 * ?n" by arith
    have b: "256 * ?n < S + 256" by arith
    from a have "real S \<le> real (256 * ?n)"
      by (rule of_nat_mono)
    then show "real S / 256 \<le> of_int (int ?n)"
      by simp
    from b have "real (256 * ?n) < real (S + 256)"
      by (simp only: of_nat_less_iff)
    then show "of_int (int ?n) - 1 < real S / 256"
      by simp
  qed
  then show ?thesis
    by (simp add: n_chunks_def BUFFER_SIZE_def)
qed

lemma writes_append [simp]: "writes (xs @ ys) = writes xs @ writes ys"
  by (simp add: writes_def map_filter_def)

lemma chunks_sent_append [simp]: "chunks_sent (xs @ ys) = chunks_sent xs @ chunks_sent ys"
  by (simp add: chunks_sent_def map_filter_def)

lemma writes_Nil [simp]: "writes [] = []"
  by (simp add: writes_def map_filter_def)

lemma chunks_sent_Nil [simp]: "chunks_sent [] = []"
  by (simp add: chunks_sent_def map_filter_def)

lemma writes_Cons:
  "writes (ev # tr) = (case ev of Write k p \<Rightarrow> (k, p) # writes tr | _ \<Rightarrow> writes tr)"
  by (simp add: writes_def map_filter_def split: event.splits)

lemma chunks_sent_Cons:
  "chunks_sent (ev # tr) =
   (case ev of Write (Chunk i) p \<Rightarrow> (i, p) # chunks_sent tr | _ \<Rightarrow> chunks_sent tr)"
  by (simp add: chunks_sent_def map_filter_def split: event.splits wkind.splits)

lemma chunks_sent_acked_steps:
  "chunks_sent (acked_steps data i n) =
   map (\<lambda>j. (i + BUFFER_SIZE * j, take BUFFER_SIZE (drop (i + BUFFER_SIZE * j) data))) [0..<n]"
  by (induction n arbitrary: i)
     (simp_all add: acked_steps_def acked_step_def chunks_sent_Cons)

lemma writes_acked_steps:
  "writes (acked_steps data i n) =
   map (\<lambda>j. (Chunk (i + BUFFER_SIZE * j), take BUFFER_SIZE (drop (i + BUFFER_SIZE * j) data))) [0..<n]"
  by (induction n arbitrary: i)
     (simp_all add: acked_steps_def acked_step_def writes_Cons)

lemma calculateCRC32_log:
  "snd (calculateCRC32 e p) = [Open p] \<or> snd (calculateCRC32 e p) = [Open p, FileClose]"
  by (simp add: calculateCRC32_def split: sum.splits)

lemma writes_refusals [simp]: "writes (refusals e host k0 N) = []"
  by (induction N arbitrary: k0) (simp_all add: refusals_def writes_Cons)

lemma writes_prelude [simp]: "writes (prelude e f host data cksum N) = []"
  using calculateCRC32_log [of e f] by (auto simp: prelude_def writes_Cons)

lemma chunks_sent_writes: "writes tr = [] \<Longrightarrow> chunks_sent tr = []"
  by (induction tr) (auto simp: writes_Cons chunks_sent_Cons split: event.splits wkind.splits)

lemma concat_chunks:
  "concat (map (\<lambda>j. take B (drop (i + B * j) data)) [0..<n]) = take (B * n) (drop i data)"
proof (induction n)
  case 0
  show ?case by simp
next
  case (Suc n)
  have "concat (map (\<lambda>j. take B (drop (i + B * j) data)) [0..<Suc n]) =
        take (B * n) (drop i data) @ take B (drop (i + B * n) data)"
    using Suc by simp
  also have "drop (i + B * n) data = drop (B * n) (drop i data)"
    by (simp add: add.commute)
  also have "take (B * n) (drop i data) @ take B (drop (B * n) (drop i data)) =
             take (B * n + B) (drop i data)"
    by (rule take_add [symmetric])
  also have "B * n + B = B * Suc n"
    by simp
  finally show ?case .
qed

lemma n_chunks_covers: "S \<le> BUFFER_SIZE * n_chunks S"
  unfolding n_chunks_def BUFFER_SIZE_def by arith

lemma n_chunks_pred: "0 < S \<Longrightarrow> n_chunks S = Suc ((S - 1) div BUFFER_SIZE)"
  unfolding n_chunks_def BUFFER_SIZE_def by arith

lemma last_chunk_length:
  "0 < S \<Longrightarrow> min BUFFER_SIZE (S - BUFFER_SIZE * ((S - 1) div BUFFER_SIZE)) =
   S - BUFFER_SIZE * ((S - 1) div BUFFER_SIZE)"
  unfolding BUFFER_SIZE_def by arith

subsection \<open>The runs of sendFirmware\<close>

lemma acks_snoc: "acks (Suc n) = acks n @ bytes ACK_MSG"
  by (induction n) (simp_all add: acks_def)

lemma acks_split:
  "(\<exists>rest. s = acks n @ rest) \<or>
   (\<exists>k<n. \<exists>rest. s = acks k @ rest \<and> take (length ACK_MSG) rest \<noteq> bytes ACK_MSG)"
proof (induction n)
  case 0
  show ?case by (simp add: acks_def)
next
  case (Suc n)
  from Suc show ?case
  proof
    assume "\<exists>rest. s = acks n @ rest"
    then obtain rest where s: "s = acks n @ rest" ..
    show ?thesis
    proof (cases "take (length ACK_MSG) rest = bytes ACK_MSG")
      case True
      then have "rest = bytes ACK_MSG @ drop (length ACK_MSG) rest"
        by (metis append_take_drop_id)
      then have "s = acks (Suc n) @ drop (length ACK_MSG) rest"
        using s by (simp add: acks_snoc)
      then show ?thesis by blast
    next
      case False
      with s show ?thesis by blast
    qed
  next
    assume "\<exists>k<n. \<exists>rest. s = acks k @ rest \<and> take (length ACK_MSG) rest \<noteq> bytes ACK_MSG"
    then show ?thesis
      using less_Suc_eq by blast
  qed
qed

lemma reaches_sample:
  "reaches_server (sample_env img stream refused) ''fw.bin'' host img (ChecksumIEEE img) refused"
  by (simp add: reaches_server_def sample_env_def
      calculateCRC32_delivers_content [of _ _ "\<lparr>content = img, plan = []\<rparr>"] delivers_content_def)

lemma run_acked:
  assumes "reaches_server e firmwareFile SERVER_IP data cksum N"
    and "rx (net_conn e) = acks (n_chunks (length data)) @ rest"
  shows "sendFirmware e firmwareFile =
     Some (if take (length CRC_OK_MSG) rest = bytes CRC_OK_MSG then Success else VerificationFailed,
           prelude e firmwareFile SERVER_IP data cksum N @
           [Write Header (PutUint32 (of_nat (length data))), BarNew (length data)] @
           acked_steps data 0 (n_chunks (length data)) @
           [Write Checksum (PutUint32 cksum), Print (MsgUploadCompleted cksum),
            ReadFull (length CRC_OK_MSG) (fst (reply (net_conn e) rest (length CRC_OK_MSG)))
              (snd (reply (net_conn e) rest (length CRC_OK_MSG))),
            Print (if take (length CRC_OK_MSG) rest = bytes CRC_OK_MSG
                   then MsgVerifyPassed else MsgVerifyFailed),
            ConnClose])"
proof -
  have ok: "(snd (reply (net_conn e) rest (length CRC_OK_MSG)) \<noteq> None \<or>
             fst (reply (net_conn e) rest (length CRC_OK_MSG)) \<noteq> bytes CRC_OK_MSG) \<longleftrightarrow>
            take (length CRC_OK_MSG) rest \<noteq> bytes CRC_OK_MSG"
    using reply_ok_iff [of "net_conn e" rest CRC_OK_MSG] by auto
  show ?thesis
    unfolding sendFirmware_def send_body_connected [OF assms(1)] transfer_acked [OF assms(2)] ok
    by (simp add: report_def)
qed

lemma run_nak:
  assumes "reaches_server e firmwareFile SERVER_IP data cksum N"
    and "rx (net_conn e) = acks k @ rest"
    and "take (length ACK_MSG) rest \<noteq> bytes ACK_MSG"
    and "BUFFER_SIZE * k < length data"
  shows "sendFirmware e firmwareFile =
     Some (TransmissionFailed,
           prelude e firmwareFile SERVER_IP data cksum N @
           [Write Header (PutUint32 (of_nat (length data))), BarNew (length data)] @
           acked_steps data 0 k @
           [Write (Chunk (BUFFER_SIZE * k)) (take BUFFER_SIZE (drop (BUFFER_SIZE * k) data)),
            ReadFull (length ACK_MSG) (fst (reply (net_conn e) rest (length ACK_MSG)))
              (snd (reply (net_conn e) rest (length ACK_MSG))),
            Print MsgTransmissionFailed, ConnClose])"
  unfolding sendFirmware_def send_body_connected [OF assms(1)] transfer_nak [OF assms(2,3,4)]
  by simp

lemma n_chunks_gt: "k < n_chunks S \<longleftrightarrow> BUFFER_SIZE * k < S"
  unfolding n_chunks_def BUFFER_SIZE_def by arith

section \<open>The claims about the transfer\<close>

subsection \<open>The chunks\<close>

lemma chunk_list_props:
  fixes data :: "byte list"
  defines "cs \<equiv> map (\<lambda>j. (BUFFER_SIZE * j, take BUFFER_SIZE (drop (BUFFER_SIZE * j) data)))
                     [0..<n_chunks (length data)]"
  shows "concat (map snd cs) = data"
    and "0 < length data \<Longrightarrow>
         length (snd (last cs)) = length data - BUFFER_SIZE * ((length data - 1) div BUFFER_SIZE)"
proof -
  have "concat (map snd cs) =
        concat (map (\<lambda>j. take BUFFER_SIZE (drop (0 + BUFFER_SIZE * j) data)) [0..<n_chunks (length data)])"
    by (simp add: cs_def comp_def)
  also have "\<dots> = take (BUFFER_SIZE * n_chunks (length data)) (drop 0 data)"
    by (rule concat_chunks)
  also have "\<dots> = data"
    using n_chunks_covers [of "length data"] by simp
  finally show "concat (map snd cs) = data" .
next
  assume pos: "0 < length data"
  then have n: "n_chunks (length data) = Suc ((length data - 1) div BUFFER_SIZE)"
    by (rule n_chunks_pred)
  have "last cs = (BUFFER_SIZE * ((length data - 1) div BUFFER_SIZE),
                   take BUFFER_SIZE (drop (BUFFER_SIZE * ((length data - 1) div BUFFER_SIZE)) data))"
    unfolding cs_def n by simp
  then show "length (snd (last cs)) = length data - BUFFER_SIZE * ((length data - 1) div BUFFER_SIZE)"
    using last_chunk_length [OF pos] by simp
qed

lemma acks_add: "acks (a + b) = acks a @ acks b"
  by (simp add: acks_def replicate_add)

lemma acks_exclusive:
  assumes "s = acks k @ rest" and "take (length ACK_MSG) rest \<noteq> bytes ACK_MSG" and "k < n"
  shows "s \<noteq> acks n @ rest'"
proof
  assume "s = acks n @ rest'"
  moreover have "acks n = acks k @ bytes ACK_MSG @ acks (n - Suc k)"
    using assms(3) acks_add [of k "Suc (n - Suc k)"] by (simp add: acks_Suc)
  ultimately have "rest = bytes ACK_MSG @ acks (n - Suc k) @ rest'"
    using assms(1) by simp
  then have "take (length ACK_MSG) rest = bytes ACK_MSG"
    by simp
  with assms(2) show False ..
qed

lemma sample_conn [simp]:
  "net_conn (sample_env img stream refused) = \<lparr>rx = stream, rx_err = EOF, tx_errs = []\<rparr>"
  by (simp add: sample_env_def)

lemma n_chunks_300: "n_chunks (length image300) = 2"
  by (simp add: n_chunks_def BUFFER_SIZE_def image300_def)

text \<open>
  C1 (as amended). In every run that gets a connection, the chunk loop writes the first
  \<open>m\<close> pieces of the cut of the image into pieces of 256 bytes, for some \<open>m\<close> up to
  \<open>\<lceil>S / 256\<rceil>\<close>: piece \<open>j\<close> is written from offset \<open>256 * j\<close> and holds the bytes of the image
  from there, at most 256 of them, so the pieces come in ascending order without gaps or
  overlaps. When the server acknowledges every chunk, \<open>m\<close> is \<open>\<lceil>S / 256\<rceil>\<close>, the pieces put
  together are the image, and for \<open>S > 0\<close> the last one has \<open>S - 256 * ((S - 1) div 256)\<close>
  bytes. A run in which an acknowledgment fails stops early (the counterexample).
\<close>

theorem chunks_partition_image:
  assumes "reaches_server e firmwareFile SERVER_IP data cksum N"
  shows "\<exists>out tr m. sendFirmware e firmwareFile = Some (out, tr) \<and>
           m \<le> n_chunks (length data) \<and>
           chunks_sent tr =
             map (\<lambda>j. (BUFFER_SIZE * j, take BUFFER_SIZE (drop (BUFFER_SIZE * j) data))) [0..<m] \<and>
           (\<forall>c \<in> set (chunks_sent tr). length (snd c) \<le> BUFFER_SIZE) \<and>
           ((\<exists>rest. rx (net_conn e) = acks (n_chunks (length data)) @ rest) \<longrightarrow>
              m = n_chunks (length data) \<and>
              int (length (chunks_sent tr)) = \<lceil>real (length data) / real BUFFER_SIZE\<rceil> \<and>
              concat (map snd (chunks_sent tr)) = data \<and>
              (0 < length data \<longrightarrow>
                 length (snd (last (chunks_sent tr))) =
                 length data - BUFFER_SIZE * ((length data - 1) div BUFFER_SIZE)))"
proof -
  let ?n = "n_chunks (length data)"
  let ?cs = "\<lambda>m. map (\<lambda>j. (BUFFER_SIZE * j, take BUFFER_SIZE (drop (BUFFER_SIZE * j) data))) [0..<m]"
  have small: "\<forall>c \<in> set (?cs m). length (snd c) \<le> BUFFER_SIZE" for m
    by auto
  from acks_split [of "rx (net_conn e)" ?n] show ?thesis
  proof
    assume "\<exists>rest. rx (net_conn e) = acks ?n @ rest"
    then obtain rest where rx: "rx (net_conn e) = acks ?n @ rest" ..
    have cs: "chunks_sent (the_tr) = ?cs ?n"
      if "the_tr = snd (the (sendFirmware e firmwareFile))" for the_tr
      unfolding that run_acked [OF assms rx]
      using chunks_sent_writes [OF writes_prelude]
      by (simp add: chunks_sent_Cons chunks_sent_acked_steps)
    obtain out tr where run: "sendFirmware e firmwareFile = Some (out, tr)"
      using run_acked [OF assms rx] by blast
    then have cs': "chunks_sent tr = ?cs ?n"
      using cs [of tr] by simp
    show ?thesis
      using run cs' small [of ?n] chunk_list_props [of data] n_chunks_ceiling [of "length data"]
      by (intro exI [of _ out] exI [of _ tr] exI [of _ ?n]) simp
  next
    assume "\<exists>k<?n. \<exists>rest. rx (net_conn e) = acks k @ rest \<and>
                take (length ACK_MSG) rest \<noteq> bytes ACK_MSG"
    then obtain k rest where k: "k < ?n" and rx: "rx (net_conn e) = acks k @ rest"
      and bad: "take (length ACK_MSG) rest \<noteq> bytes ACK_MSG"
      by blast
    from k have lt: "BUFFER_SIZE * k < length data"
      by (simp add: n_chunks_gt)
    have no: "\<not> (\<exists>rest. rx (net_conn e) = acks ?n @ rest)"
      using acks_exclusive [OF rx bad k] by blast
    have "chunks_sent (snd (the (sendFirmware e firmwareFile))) = ?cs (Suc k)"
      unfolding run_nak [OF assms rx bad lt]
      using chunks_sent_writes [OF writes_prelude]
      by (simp add: chunks_sent_Cons chunks_sent_acked_steps)
    moreover obtain out tr where run: "sendFirmware e firmwareFile = Some (out, tr)"
      using run_nak [OF assms rx bad lt] by blast
    ultimately have cs': "chunks_sent tr = ?cs (Suc k)"
      by simp
    show ?thesis
      using run cs' small [of "Suc k"] no k
      by (intro exI [of _ out] exI [of _ tr] exI [of _ "Suc k"]) simp
  qed
qed

theorem chunks_partition_image_witness:
  "\<exists>out tr. sendFirmware (sample_env image300 (bytes ''ACKACKCRC_OK'') 2) ''fw.bin'' = Some (out, tr) \<and>
     chunks_sent tr = [(0, replicate 256 0xA5), (256, replicate 44 0xA5)] \<and>
     concat (map snd (chunks_sent tr)) = image300 \<and>
     length (snd (last (chunks_sent tr))) = 44"
proof -
  let ?e = "sample_env image300 (bytes ''ACKACKCRC_OK'') 2"
  have "rx (net_conn ?e) = acks (n_chunks (length image300)) @ bytes ''CRC_OK''"
    by (simp add: n_chunks_300 acks_def bytes_def ACK_MSG_def numeral_2_eq_2)
  then have all: "\<exists>rest. rx (net_conn ?e) = acks (n_chunks (length image300)) @ rest"
    by blast
  from chunks_partition_image [OF reaches_sample [of image300 "bytes ''ACKACKCRC_OK''" 2 SERVER_IP]]
  obtain out tr m where run: "sendFirmware ?e ''fw.bin'' = Some (out, tr)"
    and cs: "chunks_sent tr =
             map (\<lambda>j. (BUFFER_SIZE * j, take BUFFER_SIZE (drop (BUFFER_SIZE * j) image300))) [0..<m]"
    and full: "(\<exists>rest. rx (net_conn ?e) = acks (n_chunks (length image300)) @ rest) \<longrightarrow>
               m = n_chunks (length image300) \<and>
               int (length (chunks_sent tr)) = \<lceil>real (length image300) / real BUFFER_SIZE\<rceil> \<and>
               concat (map snd (chunks_sent tr)) = image300 \<and>
               (0 < length image300 \<longrightarrow>
                  length (snd (last (chunks_sent tr))) =
                  length image300 - BUFFER_SIZE * ((length image300 - 1) div BUFFER_SIZE))"
    by blast
  have pos: "0 < length image300"
    by (simp add: image300_def)
  from full all pos have m: "m = 2" and cat: "concat (map snd (chunks_sent tr)) = image300"
    and lst: "length (snd (last (chunks_sent tr))) =
              length image300 - BUFFER_SIZE * ((length image300 - 1) div BUFFER_SIZE)"
    using n_chunks_300 by auto
  have "chunks_sent tr = [(0, replicate 256 0xA5), (256, replicate 44 0xA5)]"
    unfolding cs m by (simp add: BUFFER_SIZE_def image300_def numeral_2_eq_2)
  moreover have "length (snd (last (chunks_sent tr))) = 44"
    unfolding lst by (simp add: BUFFER_SIZE_def image300_def)
  ultimately show ?thesis
    using run cat by blast
qed

theorem chunk_count_counterexample:
  "map_option (\<lambda>(out, tr). chunks_sent tr)
     (sendFirmware (sample_env image300 (bytes ''NAK'') 0) ''fw.bin'') =
   Some [(0, replicate 256 0xA5)] \<and>
   \<lceil>real (length image300) / real BUFFER_SIZE\<rceil> = 2 \<and>
   concat (map snd [(0 :: nat, replicate 256 (0xA5 :: byte))]) \<noteq> image300"
proof -
  let ?e = "sample_env image300 (bytes ''NAK'') 0"
  have rx: "rx (net_conn ?e) = acks 0 @ bytes ''NAK''"
    by (simp add: acks_def)
  have bad: "take (length ACK_MSG) (bytes ''NAK'') \<noteq> bytes ACK_MSG"
    by (simp add: bytes_def ACK_MSG_def)
  have lt: "BUFFER_SIZE * 0 < length image300"
    by (simp add: image300_def)
  have "map_option (\<lambda>(out, tr). chunks_sent tr) (sendFirmware ?e ''fw.bin'') =
        Some [(0, replicate 256 0xA5)]"
    unfolding run_nak [OF reaches_sample rx bad lt]
    using chunks_sent_writes [OF writes_prelude]
    by (simp add: chunks_sent_Cons acked_steps_0 BUFFER_SIZE_def image300_def)
  moreover have "\<lceil>real (length image300) / real BUFFER_SIZE\<rceil> = 2"
    using n_chunks_ceiling [of "length image300"] by (simp add: n_chunks_300)
  moreover have "concat (map snd [(0 :: nat, replicate 256 (0xA5 :: byte))]) \<noteq> image300"
  proof
    assume "concat (map snd [(0 :: nat, replicate 256 (0xA5 :: byte))]) = image300"
    then have "length (concat (map snd [(0 :: nat, replicate 256 (0xA5 :: byte))])) = length image300"
      by simp
    then show False
      by (simp add: image300_def)
  qed
  ultimately show ?thesis
    by blast
qed

lemma acked_steps_add:
  "acked_steps data i (a + b) = acked_steps data i a @ acked_steps data (i + BUFFER_SIZE * a) b"
proof (induction a arbitrary: i)
  case 0
  show ?case by (simp add: acked_steps_0)
next
  case (Suc a)
  have "acked_steps data i (Suc a + b) = acked_step data i @ acked_steps data (i + BUFFER_SIZE) (a + b)"
    by (simp add: acked_steps_Suc)
  then show ?case
    by (simp add: Suc acked_steps_Suc add.assoc)
qed

lemma acked_steps_split:
  assumes "k < n"
  shows "acked_steps data 0 n =
         acked_steps data 0 k @
         Write (Chunk (BUFFER_SIZE * k)) (take BUFFER_SIZE (drop (BUFFER_SIZE * k) data)) #
         ReadFull (length ACK_MSG) (bytes ACK_MSG) None #
         BarAdd (length (take BUFFER_SIZE (drop (BUFFER_SIZE * k) data))) #
         acked_steps data (BUFFER_SIZE * Suc k) (n - Suc k)"
proof -
  have "n = k + Suc (n - Suc k)"
    using assms by simp
  then have "acked_steps data 0 n = acked_steps data 0 (k + Suc (n - Suc k))"
    by simp
  also have "\<dots> = acked_steps data 0 k @ acked_steps data (BUFFER_SIZE * k) (Suc (n - Suc k))"
    using acked_steps_add [of data 0 k "Suc (n - Suc k)"] by simp
  finally show ?thesis
    by (simp add: acked_steps_Suc acked_step_def add.commute)
qed

lemma writes_kinds_acked:
  "map fst (writes (acked_steps data 0 n)) = map (\<lambda>j. Chunk (BUFFER_SIZE * j)) [0..<n]"
  by (simp add: writes_acked_steps comp_def)

lemma main_sends:
  "firmwareFile \<noteq> ''version'' \<Longrightarrow> firmwareFile \<noteq> ''-v'' \<Longrightarrow>
   main e [prog, firmwareFile] =
   (case sendFirmware e firmwareFile of None \<Rightarrow> None | Some (out, tr) \<Rightarrow> Some (0, tr))"
  by (simp add: main_def)

subsection \<open>Acknowledgments\<close>

text \<open>
  C2. Let the server have acknowledged the chunks before chunk \<open>k\<close>, so that chunk \<open>k\<close> is
  written. Right after that write the run reads exactly \<open>len("ACK") = 3\<close> bytes with
  \<^verbatim>\<open>io.ReadFull\<close>. If the read fails or the bytes are not \<^verbatim>\<open>ACK\<close>, the run ends there as a
  failed transmission: what follows is the message and the closing of the connection, and
  the writes of the whole run are the header and the chunks up to \<open>k\<close>; no later chunk and
  no checksum is written.
\<close>

theorem failed_ack_aborts:
  assumes "reaches_server e firmwareFile SERVER_IP data cksum N"
    and "rx (net_conn e) = acks k @ rest"
    and "BUFFER_SIZE * k < length data"
  shows "\<exists>out pre buf err rem.
           sendFirmware e firmwareFile =
             Some (out, pre @ Write (Chunk (BUFFER_SIZE * k))
                                  (take BUFFER_SIZE (drop (BUFFER_SIZE * k) data)) #
                            ReadFull (length ACK_MSG) buf err # rem) \<and>
           (buf, err) = reply (net_conn e) rest (length ACK_MSG) \<and>
           map fst (writes pre) = Header # map (\<lambda>j. Chunk (BUFFER_SIZE * j)) [0..<k] \<and>
           (err \<noteq> None \<or> buf \<noteq> bytes ACK_MSG \<longrightarrow>
              out = TransmissionFailed \<and> rem = [Print MsgTransmissionFailed, ConnClose])"
proof (cases "take (length ACK_MSG) rest = bytes ACK_MSG")
  case False
  let ?pre = "prelude e firmwareFile SERVER_IP data cksum N @
              [Write Header (PutUint32 (of_nat (length data))), BarNew (length data)] @
              acked_steps data 0 k"
  have "sendFirmware e firmwareFile =
        Some (TransmissionFailed,
              ?pre @ Write (Chunk (BUFFER_SIZE * k)) (take BUFFER_SIZE (drop (BUFFER_SIZE * k) data)) #
              ReadFull (length ACK_MSG) (fst (reply (net_conn e) rest (length ACK_MSG)))
                (snd (reply (net_conn e) rest (length ACK_MSG))) #
              [Print MsgTransmissionFailed, ConnClose])"
    using run_nak [OF assms(1,2) False assms(3)] by simp
  moreover have "map fst (writes ?pre) = Header # map (\<lambda>j. Chunk (BUFFER_SIZE * j)) [0..<k]"
    by (simp add: writes_Cons writes_kinds_acked)
  ultimately show ?thesis
    by (metis prod.collapse)
next
  case True
  let ?n = "n_chunks (length data)"
  from assms(3) have kn: "k < ?n"
    by (simp add: n_chunks_gt)
  have ok: "reply (net_conn e) rest (length ACK_MSG) = (bytes ACK_MSG, None)"
    using reply_ok_iff [of "net_conn e" rest ACK_MSG] True
    by (metis prod.collapse)
  let ?pre0 = "prelude e firmwareFile SERVER_IP data cksum N @
               [Write Header (PutUint32 (of_nat (length data))), BarNew (length data)]"
  have pre0: "map fst (writes (?pre0 @ acked_steps data 0 k)) =
              Header # map (\<lambda>j. Chunk (BUFFER_SIZE * j)) [0..<k]"
    by (simp add: writes_Cons writes_kinds_acked)
  have "\<exists>out n' post. sendFirmware e firmwareFile =
          Some (out, ?pre0 @ acked_steps data 0 n' @ post) \<and> k < n'"
    using acks_split [of "rx (net_conn e)" ?n]
  proof
    assume "\<exists>r. rx (net_conn e) = acks ?n @ r"
    then obtain r where "rx (net_conn e) = acks ?n @ r" ..
    from run_acked [OF assms(1) this] kn show ?thesis
      by (metis append.assoc)
  next
    assume "\<exists>k'<?n. \<exists>r. rx (net_conn e) = acks k' @ r \<and> take (length ACK_MSG) r \<noteq> bytes ACK_MSG"
    then obtain k' r where k': "k' < ?n" and rx': "rx (net_conn e) = acks k' @ r"
      and bad': "take (length ACK_MSG) r \<noteq> bytes ACK_MSG"
      by blast
    have "k < k'"
    proof (rule ccontr)
      assume "\<not> k < k'"
      then have "k' < Suc k" by simp
      moreover have "rest = bytes ACK_MSG @ drop (length ACK_MSG) rest"
        using True by (metis append_take_drop_id)
      then have "rx (net_conn e) = acks (Suc k) @ drop (length ACK_MSG) rest"
        using assms(2) by (simp add: acks_snoc)
      ultimately show False
        using acks_exclusive [OF rx' bad'] by blast
    qed
    moreover from k' have "BUFFER_SIZE * k' < length data"
      by (simp add: n_chunks_gt)
    from run_nak [OF assms(1) rx' bad' this]
    have "\<exists>out post. sendFirmware e firmwareFile = Some (out, ?pre0 @ acked_steps data 0 k' @ post)"
      by (metis append.assoc)
    ultimately show ?thesis
      by blast
  qed
  then obtain out n' post where run: "sendFirmware e firmwareFile =
      Some (out, ?pre0 @ acked_steps data 0 n' @ post)" and kn': "k < n'"
    by blast
  have "sendFirmware e firmwareFile =
        Some (out, (?pre0 @ acked_steps data 0 k) @
          Write (Chunk (BUFFER_SIZE * k)) (take BUFFER_SIZE (drop (BUFFER_SIZE * k) data)) #
          ReadFull (length ACK_MSG) (bytes ACK_MSG) None #
          (BarAdd (length (take BUFFER_SIZE (drop (BUFFER_SIZE * k) data))) #
           acked_steps data (BUFFER_SIZE * Suc k) (n' - Suc k) @ post))"
    unfolding run acked_steps_split [OF kn'] by simp
  with pre0 ok show ?thesis
    by (metis)
qed

theorem failed_ack_aborts_witness:
  "\<exists>pre. sendFirmware (sample_env image300 (bytes ''ACKNAK'') 0) ''fw.bin'' =
           Some (TransmissionFailed,
                 pre @ [Write (Chunk 256) (replicate 44 0xA5), ReadFull 3 (bytes ''NAK'') None,
                        Print MsgTransmissionFailed, ConnClose]) \<and>
         map fst (writes pre) = [Header, Chunk 0]"
proof -
  let ?e = "sample_env image300 (bytes ''ACKNAK'') 0"
  have rx: "rx (net_conn ?e) = acks 1 @ bytes ''NAK''"
    by (simp add: acks_def bytes_def ACK_MSG_def)
  have lt: "BUFFER_SIZE * 1 < length image300"
    by (simp add: BUFFER_SIZE_def image300_def)
  have rep: "reply (net_conn ?e) (bytes ''NAK'') (length ACK_MSG) = (bytes ''NAK'', None)"
    by (simp add: reply_def io_ReadFull.simps ACK_MSG_def)
  have bad: "bytes ''NAK'' \<noteq> bytes ACK_MSG"
    by (simp add: bytes_def ACK_MSG_def)
  from failed_ack_aborts [OF reaches_sample rx lt]
  obtain out pre buf err rem where
    run: "sendFirmware ?e ''fw.bin'' =
          Some (out, pre @ Write (Chunk (BUFFER_SIZE * 1))
                               (take BUFFER_SIZE (drop (BUFFER_SIZE * 1) image300)) #
                         ReadFull (length ACK_MSG) buf err # rem)"
    and reply: "(buf, err) = reply (net_conn ?e) (bytes ''NAK'') (length ACK_MSG)"
    and pre: "map fst (writes pre) = Header # map (\<lambda>j. Chunk (BUFFER_SIZE * j)) [0..<1]"
    and abort: "err \<noteq> None \<or> buf \<noteq> bytes ACK_MSG \<longrightarrow>
                out = TransmissionFailed \<and> rem = [Print MsgTransmissionFailed, ConnClose]"
    by (elim exE conjE) (rule that)
  from reply rep have buf: "buf = bytes ''NAK''" and err: "err = None"
    by simp_all
  with abort bad have "out = TransmissionFailed" and "rem = [Print MsgTransmissionFailed, ConnClose]"
    by simp_all
  with run buf err pre show ?thesis
    by (simp add: BUFFER_SIZE_def image300_def ACK_MSG_def)
qed

subsection \<open>The reply to the checksum\<close>

text \<open>
  C3. When every chunk is acknowledged, the run writes the header and all chunks of the
  image, then the checksum, and then reads exactly \<open>len("CRC_OK") = 6\<close> bytes. If that read
  fails or the bytes are not \<^verbatim>\<open>CRC_OK\<close>, the run reports a failed verification, otherwise
  success; either way the connection is closed and \<^verbatim>\<open>sendFirmware\<close> returns to \<^verbatim>\<open>main\<close>,
  which ends with exit status 0.
\<close>

theorem verification_reply_decides:
  assumes "reaches_server e firmwareFile SERVER_IP data cksum N"
    and "rx (net_conn e) = acks (n_chunks (length data)) @ rest"
  shows "\<exists>pre buf err tr.
           tr = pre @ [Write Checksum (PutUint32 cksum), Print (MsgUploadCompleted cksum),
                       ReadFull (length CRC_OK_MSG) buf err,
                       Print (if err \<noteq> None \<or> buf \<noteq> bytes CRC_OK_MSG
                              then MsgVerifyFailed else MsgVerifyPassed),
                       ConnClose] \<and>
           sendFirmware e firmwareFile =
             Some (if err \<noteq> None \<or> buf \<noteq> bytes CRC_OK_MSG then VerificationFailed else Success, tr) \<and>
           (buf, err) = reply (net_conn e) rest (length CRC_OK_MSG) \<and>
           map fst (writes pre) =
             Header # map (\<lambda>j. Chunk (BUFFER_SIZE * j)) [0..<n_chunks (length data)] \<and>
           concat (map snd (chunks_sent pre)) = data \<and>
           (firmwareFile \<noteq> ''version'' \<and> firmwareFile \<noteq> ''-v'' \<longrightarrow>
              main e [prog, firmwareFile] = Some (0, tr))"
proof -
  let ?n = "n_chunks (length data)"
  let ?pre = "prelude e firmwareFile SERVER_IP data cksum N @
              [Write Header (PutUint32 (of_nat (length data))), BarNew (length data)] @
              acked_steps data 0 ?n"
  let ?buf = "fst (reply (net_conn e) rest (length CRC_OK_MSG))"
  let ?err = "snd (reply (net_conn e) rest (length CRC_OK_MSG))"
  let ?tr = "?pre @ [Write Checksum (PutUint32 cksum), Print (MsgUploadCompleted cksum),
                     ReadFull (length CRC_OK_MSG) ?buf ?err,
                     Print (if ?err \<noteq> None \<or> ?buf \<noteq> bytes CRC_OK_MSG
                            then MsgVerifyFailed else MsgVerifyPassed),
                     ConnClose]"
  have ok: "(?err \<noteq> None \<or> ?buf \<noteq> bytes CRC_OK_MSG) \<longleftrightarrow>
            take (length CRC_OK_MSG) rest \<noteq> bytes CRC_OK_MSG"
    using reply_ok_iff [of "net_conn e" rest CRC_OK_MSG] by auto
  have run: "sendFirmware e firmwareFile =
             Some (if ?err \<noteq> None \<or> ?buf \<noteq> bytes CRC_OK_MSG then VerificationFailed else Success, ?tr)"
    unfolding run_acked [OF assms] ok by simp
  have kinds: "map fst (writes ?pre) = Header # map (\<lambda>j. Chunk (BUFFER_SIZE * j)) [0..<?n]"
    by (simp add: writes_Cons writes_kinds_acked)
  have "chunks_sent ?pre =
        map (\<lambda>j. (BUFFER_SIZE * j, take BUFFER_SIZE (drop (BUFFER_SIZE * j) data))) [0..<?n]"
    using chunks_sent_writes [OF writes_prelude]
    by (simp add: chunks_sent_Cons chunks_sent_acked_steps)
  then have cat: "concat (map snd (chunks_sent ?pre)) = data"
    using chunk_list_props(1) [of data] by simp
  have "firmwareFile \<noteq> ''version'' \<and> firmwareFile \<noteq> ''-v'' \<longrightarrow>
        main e [prog, firmwareFile] = Some (0, ?tr)"
    using run by (simp add: main_sends)
  with run kinds cat show ?thesis
    by (intro exI [of _ ?pre] exI [of _ ?buf] exI [of _ ?err] exI [of _ ?tr]) simp
qed

theorem verification_reply_decides_witness:
  "(\<exists>tr. sendFirmware (sample_env image300 (bytes ''ACKACKCRC_OK'') 2) ''fw.bin'' = Some (Success, tr) \<and>
         main (sample_env image300 (bytes ''ACKACKCRC_OK'') 2) [''gboot'', ''fw.bin''] = Some (0, tr)) \<and>
   (\<exists>tr. sendFirmware (sample_env image300 (bytes ''ACKACKCRC_NO'') 2) ''fw.bin'' =
           Some (VerificationFailed, tr) \<and>
         main (sample_env image300 (bytes ''ACKACKCRC_NO'') 2) [''gboot'', ''fw.bin''] = Some (0, tr))"
proof -
  have rx: "rx (net_conn (sample_env image300 (bytes (''ACKACK'' @ s)) 2)) =
            acks (n_chunks (length image300)) @ bytes s" for s
    by (simp add: n_chunks_300 acks_def bytes_def ACK_MSG_def numeral_2_eq_2)
  have good: "reply (net_conn (sample_env image300 stream 2)) (bytes ''CRC_OK'') (length CRC_OK_MSG) =
              (bytes CRC_OK_MSG, None)" for stream
    by (simp add: reply_def io_ReadFull.simps CRC_OK_MSG_def)
  have bad: "reply (net_conn (sample_env image300 stream 2)) (bytes ''CRC_NO'') (length CRC_OK_MSG) =
              (bytes ''CRC_NO'', None) \<and> bytes ''CRC_NO'' \<noteq> bytes CRC_OK_MSG" for stream
    by (simp add: reply_def io_ReadFull.simps CRC_OK_MSG_def bytes_def)
  have f: "''fw.bin'' \<noteq> ''version'' \<and> ''fw.bin'' \<noteq> ''-v''"
    by simp
  from verification_reply_decides [OF reaches_sample rx [of "''CRC_OK''"], of "''gboot''"]
  obtain pre buf err tr where
    "sendFirmware (sample_env image300 (bytes ''ACKACKCRC_OK'') 2) ''fw.bin'' =
       Some (if err \<noteq> None \<or> buf \<noteq> bytes CRC_OK_MSG then VerificationFailed else Success, tr)"
    "(buf, err) = reply (net_conn (sample_env image300 (bytes (''ACKACK'' @ ''CRC_OK'')) 2))
                    (bytes ''CRC_OK'') (length CRC_OK_MSG)"
    "''fw.bin'' \<noteq> ''version'' \<and> ''fw.bin'' \<noteq> ''-v'' \<longrightarrow>
     main (sample_env image300 (bytes ''ACKACKCRC_OK'') 2) [''gboot'', ''fw.bin''] = Some (0, tr)"
    by (elim exE conjE) (rule that, simp_all)
  then have 1: "\<exists>tr. sendFirmware (sample_env image300 (bytes ''ACKACKCRC_OK'') 2) ''fw.bin'' = Some (Success, tr) \<and>
         main (sample_env image300 (bytes ''ACKACKCRC_OK'') 2) [''gboot'', ''fw.bin''] = Some (0, tr)"
    using good by auto
  from verification_reply_decides [OF reaches_sample rx [of "''CRC_NO''"], of "''gboot''"]
  obtain pre buf err tr where
    "sendFirmware (sample_env image300 (bytes ''ACKACKCRC_NO'') 2) ''fw.bin'' =
       Some (if err \<noteq> None \<or> buf \<noteq> bytes CRC_OK_MSG then VerificationFailed else Success, tr)"
    "(buf, err) = reply (net_conn (sample_env image300 (bytes (''ACKACK'' @ ''CRC_NO'')) 2))
                    (bytes ''CRC_NO'') (length CRC_OK_MSG)"
    "''fw.bin'' \<noteq> ''version'' \<and> ''fw.bin'' \<noteq> ''-v'' \<longrightarrow>
     main (sample_env image300 (bytes ''ACKACKCRC_NO'') 2) [''gboot'', ''fw.bin''] = Some (0, tr)"
    by (elim exE conjE) (rule that, simp_all)
  then have 2: "\<exists>tr. sendFirmware (sample_env image300 (bytes ''ACKACKCRC_NO'') 2) ''fw.bin'' =
           Some (VerificationFailed, tr) \<and>
         main (sample_env image300 (bytes ''ACKACKCRC_NO'') 2) [''gboot'', ''fw.bin''] = Some (0, tr)"
    using bad by auto
  from 1 2 show ?thesis ..
qed

subsection \<open>Failures before the connection\<close>

lemma network_prelude_fail:
  "filter is_network ([ReadFile f, Print m] @ snd (calculateCRC32 e f) @ [Print m']) = []"
  using calculateCRC32_log [of e f] by auto

lemma faulty_crc: "fst (calculateCRC32 faulty_env p) = Inl (OSError ''input/output error'')"
proof -
  let ?f = "\<lparr>content = image300, plan = [Deliver 100, Fault (OSError ''input/output error'')]\<rparr>"
  have 1: "file_Read ?f BUFFER_SIZE =
           ((take 100 image300, None),
            \<lparr>content = drop 100 image300, plan = [Fault (OSError ''input/output error'')]\<rparr>)"
    by (simp add: BUFFER_SIZE_def image300_def)
  have 2: "file_Read \<lparr>content = drop 100 image300, plan = [Fault (OSError ''input/output error'')]\<rparr>
             BUFFER_SIZE =
           (([], Some (OSError ''input/output error'')), \<lparr>content = drop 100 image300, plan = []\<rparr>)"
    by (simp add: BUFFER_SIZE_pos)
  have "read_loop NewIEEE ?f = Inl (OSError ''input/output error'')"
    unfolding read_loop_step [OF 1] by (rule read_loop_err [OF 2]) simp
  then show ?thesis
    by (simp add: calculateCRC32_def faulty_env_def sample_env_def)
qed

text \<open>
  C5. When \<^verbatim>\<open>os.ReadFile\<close> fails, or \<^verbatim>\<open>calculateCRC32\<close> returns an error,
  \<^verbatim>\<open>sendFirmware\<close> returns after printing the error as its last action, and the run holds
  no network event at all: no call of \<^verbatim>\<open>net.Dial\<close>, no write, no read, no close.
\<close>

theorem input_failure_no_network:
  assumes "(\<exists>err. fs_ReadFile e firmwareFile = Inl err) \<or>
           (\<exists>err. fst (calculateCRC32 e firmwareFile) = Inl err)"
  shows "\<exists>out tr. sendFirmware e firmwareFile = Some (out, tr) \<and>
           (out = FileNotFound \<and> last tr = Print (MsgNotFound firmwareFile) \<or>
            (\<exists>err. out = CRCFailure err \<and> last tr = Print (MsgCRCError err))) \<and>
           filter is_network tr = [] \<and> writes tr = []"
proof (cases "fs_ReadFile e firmwareFile")
  case (Inl err)
  then show ?thesis
    by (simp add: sendFirmware_def send_body_not_found writes_Cons)
next
  case (Inr data)
  with assms obtain err where err: "fst (calculateCRC32 e firmwareFile) = Inl err"
    by auto
  have "writes (snd (calculateCRC32 e firmwareFile)) = []"
    using calculateCRC32_log [of e firmwareFile] by (auto simp: writes_Cons)
  then show ?thesis
    using network_prelude_fail [of firmwareFile _ e]
    by (simp add: sendFirmware_def send_body_crc_failure [OF Inr err] writes_Cons)
qed

theorem input_failure_no_network_witness:
  "sendFirmware (sample_env image300 [] 0) ''missing.bin'' =
     Some (FileNotFound, [ReadFile ''missing.bin'', Print (MsgNotFound ''missing.bin'')]) \<and>
   (\<exists>tr. sendFirmware faulty_env ''fw.bin'' = Some (CRCFailure (OSError ''input/output error''), tr) \<and>
         filter is_network tr = [])"
proof -
  have "\<exists>err. fs_ReadFile (sample_env image300 [] 0) ''missing.bin'' = Inl err"
    by (simp add: sample_env_def)
  then have "(\<exists>err. fs_ReadFile (sample_env image300 [] 0) ''missing.bin'' = Inl err) \<or>
             (\<exists>err. fst (calculateCRC32 (sample_env image300 [] 0) ''missing.bin'') = Inl err)"
    by (rule disjI1)
  from input_failure_no_network [OF this]
  have "\<exists>out tr. sendFirmware (sample_env image300 [] 0) ''missing.bin'' = Some (out, tr)"
    by blast
  then have a: "sendFirmware (sample_env image300 [] 0) ''missing.bin'' =
     Some (FileNotFound, [ReadFile ''missing.bin'', Print (MsgNotFound ''missing.bin'')])"
    by (simp add: sendFirmware_def send_body_def sample_env_def)
  have "(\<exists>err. fs_ReadFile faulty_env ''fw.bin'' = Inl err) \<or>
        (\<exists>err. fst (calculateCRC32 faulty_env ''fw.bin'') = Inl err)"
    using faulty_crc by blast
  from input_failure_no_network [OF this]
  obtain out tr where run: "sendFirmware faulty_env ''fw.bin'' = Some (out, tr)"
    and out: "out = FileNotFound \<and> last tr = Print (MsgNotFound ''fw.bin'') \<or>
              (\<exists>err. out = CRCFailure err \<and> last tr = Print (MsgCRCError err))"
    and net: "filter is_network tr = []"
    by blast
  have "fs_ReadFile faulty_env ''fw.bin'' = Inr image300"
    by (simp add: faulty_env_def sample_env_def)
  from send_body_crc_failure [OF this faulty_crc, of report SERVER_IP] run
  have "out = CRCFailure (OSError ''input/output error'')"
    by (simp add: sendFirmware_def)
  with run net a show ?thesis
    by blast
qed

subsection \<open>The size header\<close>

lemma unat_byte: "unat (ucast (drop_bit k (w :: uint32)) :: byte) = (unat w div 2 ^ k) mod 256"
proof -
  have "unat (ucast (drop_bit k w) :: byte) = take_bit 8 (drop_bit k (unat w))"
    by (simp only: unsigned_ucast_eq unat_drop_bit_eq) simp
  then show ?thesis
    by (simp add: drop_bit_eq_div take_bit_eq_mod)
qed

lemma be4:
  fixes n :: nat
  assumes "n < 2 ^ 32"
  shows "((n div 2 ^ 24 mod 256 * 256 + n div 2 ^ 16 mod 256) * 256 + n div 2 ^ 8 mod 256) * 256
         + n mod 256 = n"
proof -
  define a where "a = n div 256"
  define b where "b = a div 256"
  define c where "c = b div 256"
  have c: "c < 256"
    using assms unfolding c_def b_def a_def by (simp add: div_mult2_eq [symmetric] less_mult_imp_div_less)
  have n8: "n div 2 ^ 8 = a"
    by (simp add: a_def)
  have n16: "n div 2 ^ 16 = b"
    unfolding b_def a_def by (simp add: div_mult2_eq [symmetric])
  have n24: "n div 2 ^ 24 = c"
    unfolding c_def b_def a_def by (simp add: div_mult2_eq [symmetric])
  have "c mod 256 * 256 + b mod 256 = b"
    using c by (simp add: c_def)
  then have "(c mod 256 * 256 + b mod 256) * 256 + a mod 256 = a"
    by (simp add: b_def)
  then have "((c mod 256 * 256 + b mod 256) * 256 + a mod 256) * 256 + n mod 256 = n"
    by (simp add: a_def)
  then show ?thesis
    by (simp only: n8 n16 n24)
qed

lemma be_value_PutUint32: "be_value (PutUint32 w) = unat w"
proof -
  have lt: "unat w < 2 ^ 32"
    using unsigned_less [of w, where 'a = nat] by simp
  have b0: "unat (ucast w :: byte) = unat w mod 256"
    using unat_byte [of 0 w] by simp
  have "be_value (PutUint32 w) =
        ((unat w div 2 ^ 24 mod 256 * 256 + unat w div 2 ^ 16 mod 256) * 256 +
          unat w div 2 ^ 8 mod 256) * 256 + unat w mod 256"
    unfolding be_value_def PutUint32_def by (simp only: foldl.simps unat_byte b0) simp
  also have "\<dots> = unat w"
    using lt by (rule be4)
  finally show ?thesis .
qed

lemma be_value_size: "be_value (PutUint32 (of_nat S)) = S mod 2 ^ 32"
  by (simp add: be_value_PutUint32 unat_of_nat)

lemma PutUint32_wraps: "PutUint32 (of_nat (2 ^ 32)) = [0, 0, 0, 0]"
  by (simp add: PutUint32_def)

lemma chunk_loop_starts:
  assumes "0 < length data"
  shows "\<exists>rem. fst (chunk_loop data 0 c) = Write (Chunk 0) (take BUFFER_SIZE data) # rem"
proof -
  let ?c1 = "snd (conn_Write c (take BUFFER_SIZE (drop 0 data)))"
  obtain buf err c2 where rd: "io_ReadFull ?c1 (length ACK_MSG) = ((buf, err), c2)"
    by (metis surj_pair)
  show ?thesis
  proof (cases "err \<noteq> None \<or> buf \<noteq> bytes ACK_MSG")
    case True
    from chunk_loop_nak [OF assms rd True] show ?thesis
      by simp
  next
    case False
    then have "io_ReadFull ?c1 (length ACK_MSG) = ((bytes ACK_MSG, None), c2)"
      using rd by simp
    from chunk_loop_ack [OF assms this] show ?thesis
      by (simp add: acked_step_def)
  qed
qed

lemma transfer_starts:
  "\<exists>rem. snd (transfer rep c data cksum) =
     Write Header (PutUint32 (of_nat (length data))) # BarNew (length data) #
     (if data = [] then Write Checksum (PutUint32 cksum)
      else Write (Chunk 0) (take BUFFER_SIZE data)) # rem"
proof (cases "0 < length data")
  case True
  from chunk_loop_starts [OF True]
  obtain rem where "fst (chunk_loop data 0 (snd (conn_Write c (PutUint32 (of_nat (length data)))))) =
     Write (Chunk 0) (take BUFFER_SIZE data) # rem"
    by blast
  with True show ?thesis
    by (cases "chunk_loop data 0 (snd (conn_Write c (PutUint32 (of_nat (length data)))))")
       (auto simp: transfer_def Let_def split: option.splits)
next
  case False
  then show ?thesis
    by (simp add: transfer_def Let_def chunk_loop_done)
qed

lemma conn_io_refusals [simp]: "filter is_conn_io (refusals e host k0 N) = []"
  by (induction N arbitrary: k0) (simp_all add: refusals_def)

lemma conn_io_prelude [simp]: "filter is_conn_io (prelude e f host data cksum N) = []"
  using calculateCRC32_log [of e f] by (auto simp: prelude_def)

lemma length_PutUint32 [simp]: "length (PutUint32 w) = 4"
  by (simp add: PutUint32_def)

text \<open>
  C6 (as amended). In every run that gets a connection, the first operation on the
  connection is the write of four bytes that are, read as a big-endian unsigned number,
  the size of the image modulo \<open>2\<^sup>3\<^sup>2\<close>: the size itself for an image of less than \<open>2\<^sup>3\<^sup>2\<close>
  bytes. Nothing is read in reply to the header: the next operation on the connection is
  the write of the first chunk, the first 256 bytes of the image at most, or the write of
  the checksum when the image is empty. For an image of \<open>2\<^sup>3\<^sup>2\<close> bytes the header is four zero
  bytes (the counterexample).
\<close>

theorem size_header_first:
  assumes "reaches_server e firmwareFile SERVER_IP data cksum N"
  shows "\<exists>out pre post rem.
           sendFirmware e firmwareFile =
             Some (out, pre @ Write Header (PutUint32 (of_nat (length data))) # post) \<and>
           filter is_conn_io pre = [] \<and>
           filter is_conn_io post =
             (if data = [] then Write Checksum (PutUint32 cksum)
              else Write (Chunk 0) (take BUFFER_SIZE data)) # rem \<and>
           length (PutUint32 (of_nat (length data))) = 4 \<and>
           be_value (PutUint32 (of_nat (length data))) = length data mod 2 ^ 32 \<and>
           (length data < 2 ^ 32 \<longrightarrow> be_value (PutUint32 (of_nat (length data))) = length data)"
proof -
  define w where "w = (if data = [] then Write Checksum (PutUint32 cksum)
                       else Write (Chunk 0) (take BUFFER_SIZE data))"
  have io: "is_conn_io w"
    by (simp add: w_def)
  obtain rem where t: "snd (transfer report (net_conn e) data cksum) =
     Write Header (PutUint32 (of_nat (length data))) # BarNew (length data) # w # rem"
    using transfer_starts unfolding w_def by blast
  have "sendFirmware e firmwareFile =
        Some (fst (transfer report (net_conn e) data cksum),
              prelude e firmwareFile SERVER_IP data cksum N @
              Write Header (PutUint32 (of_nat (length data))) # (BarNew (length data) # w # rem))"
    unfolding sendFirmware_def send_body_connected [OF assms] t ..
  moreover have "filter is_conn_io (BarNew (length data) # w # rem) = w # filter is_conn_io rem"
    using io by simp
  ultimately show ?thesis
    unfolding w_def [symmetric]
    using conn_io_prelude [of e firmwareFile SERVER_IP data cksum N]
    by (metis be_value_size length_PutUint32 mod_less)
qed

theorem size_header_first_witness:
  "(\<exists>out pre post rem.
      sendFirmware (sample_env image300 (bytes ''ACKACKCRC_OK'') 2) ''fw.bin'' =
        Some (out, pre @ Write Header [0, 0, 1, 44] # post) \<and>
      filter is_conn_io pre = [] \<and>
      filter is_conn_io post = Write (Chunk 0) (replicate 256 0xA5) # rem \<and>
      be_value [0, 0, 1, 44] = length image300) \<and>
   (\<exists>out pre post rem.
      sendFirmware (sample_env [] (bytes ''CRC_OK'') 0) ''fw.bin'' =
        Some (out, pre @ Write Header [0, 0, 0, 0] # post) \<and>
      filter is_conn_io pre = [] \<and>
      filter is_conn_io post = Write Checksum [0, 0, 0, 0] # rem)"
proof -
  have hdr: "PutUint32 (of_nat (length image300)) = [0, 0, 1, 44]"
    by (simp add: PutUint32_def image300_def)
  have small: "length image300 < 2 ^ 32"
    by (simp add: image300_def)
  have first: "take BUFFER_SIZE image300 = replicate 256 0xA5" and filled: "image300 \<noteq> []"
    by (simp_all add: image300_def BUFFER_SIZE_def)
  have zero: "PutUint32 0 = [0, 0, 0, 0]"
    by (simp add: PutUint32_def)
  have "\<exists>out pre post rem.
      sendFirmware (sample_env image300 (bytes ''ACKACKCRC_OK'') 2) ''fw.bin'' =
        Some (out, pre @ Write Header [0, 0, 1, 44] # post) \<and>
      filter is_conn_io pre = [] \<and>
      filter is_conn_io post = Write (Chunk 0) (replicate 256 0xA5) # rem \<and>
      be_value [0, 0, 1, 44] = length image300"
    using size_header_first [OF reaches_sample [of image300 "bytes ''ACKACKCRC_OK''" 2 SERVER_IP]]
    unfolding hdr first using small filled by (elim exE conjE) auto
  moreover have "\<exists>out pre post rem.
      sendFirmware (sample_env [] (bytes ''CRC_OK'') 0) ''fw.bin'' =
        Some (out, pre @ Write Header [0, 0, 0, 0] # post) \<and>
      filter is_conn_io pre = [] \<and>
      filter is_conn_io post = Write Checksum [0, 0, 0, 0] # rem"
    using size_header_first [OF reaches_sample [of "[]" "bytes ''CRC_OK''" 0 SERVER_IP]]
    by (elim exE conjE) (auto simp: zero ChecksumIEEE_Nil)
  ultimately show ?thesis ..
qed

theorem size_header_counterexample:
  "map_option (\<lambda>(out, tr). hd (writes tr))
     (sendFirmware (sample_env (replicate (2 ^ 32) 0) [] 0) ''fw.bin'') =
   Some (Header, [0, 0, 0, 0]) \<and>
   be_value [0, 0, 0, 0] \<noteq> length (replicate (2 ^ 32) (0 :: byte))"
proof -
  let ?img = "replicate (2 ^ 32) (0 :: byte)"
  let ?e = "sample_env ?img [] 0"
  obtain w rem where t: "snd (transfer report (net_conn ?e) ?img (ChecksumIEEE ?img)) =
     Write Header (PutUint32 (of_nat (length ?img))) # BarNew (length ?img) # w # rem"
    using transfer_starts by blast
  have "map_option (\<lambda>(out, tr). hd (writes tr)) (sendFirmware ?e ''fw.bin'') =
        Some (Header, PutUint32 (of_nat (length ?img)))"
    unfolding sendFirmware_def send_body_connected [OF reaches_sample] t
    by (simp add: writes_Cons)
  also have "PutUint32 (of_nat (length ?img)) = [0, 0, 0, 0]"
    using PutUint32_wraps by simp
  finally show ?thesis
    by (simp add: be_value_def)
qed

subsection \<open>The connection loop\<close>

lemma run_cases:
  assumes "reaches_server e firmwareFile SERVER_IP data cksum N"
  shows "\<exists>out k post.
     sendFirmware e firmwareFile =
       Some (out, prelude e firmwareFile SERVER_IP data cksum N @
                  [Write Header (PutUint32 (of_nat (length data))), BarNew (length data)] @
                  acked_steps data 0 k @ post) \<and>
     ((\<exists>buf err. k < n_chunks (length data) \<and> out = TransmissionFailed \<and>
         post = [Write (Chunk (BUFFER_SIZE * k)) (take BUFFER_SIZE (drop (BUFFER_SIZE * k) data)),
                 ReadFull (length ACK_MSG) buf err, Print MsgTransmissionFailed, ConnClose]) \<or>
      (\<exists>buf err m. k = n_chunks (length data) \<and>
         post = [Write Checksum (PutUint32 cksum), Print (MsgUploadCompleted cksum),
                 ReadFull (length CRC_OK_MSG) buf err, Print m, ConnClose]))"
  using acks_split [of "rx (net_conn e)" "n_chunks (length data)"]
proof
  assume "\<exists>rest. rx (net_conn e) = acks (n_chunks (length data)) @ rest"
  then obtain rest where "rx (net_conn e) = acks (n_chunks (length data)) @ rest" ..
  from run_acked [OF assms this] show ?thesis
    by blast
next
  assume "\<exists>k<n_chunks (length data). \<exists>rest. rx (net_conn e) = acks k @ rest \<and>
            take (length ACK_MSG) rest \<noteq> bytes ACK_MSG"
  then obtain k rest where k: "k < n_chunks (length data)" and rx: "rx (net_conn e) = acks k @ rest"
    and bad: "take (length ACK_MSG) rest \<noteq> bytes ACK_MSG"
    by blast
  from k have "BUFFER_SIZE * k < length data"
    by (simp add: n_chunks_gt)
  from run_nak [OF assms rx bad this] k show ?thesis
    by blast
qed

lemma filter_acked_steps:
  assumes "\<And>k p. \<not> P (Write k p)" and "\<And>n buf. \<not> P (ReadFull n buf None)" and "\<And>n. \<not> P (BarAdd n)"
  shows "filter P (acked_steps data i n) = []"
  by (induction n arbitrary: i) (simp_all add: acked_steps_0 acked_steps_Suc acked_step_def assms)

lemma dial_or_sleep_refusals:
  "filter is_dial_or_sleep (refusals e host k0 N) = concat (replicate N [Dial host SERVER_PORT, Sleep 3])"
  by (induction N arbitrary: k0) (simp_all add: refusals_Suc, simp add: refusals_def)

lemma network_refusals:
  "filter is_network (refusals e host k0 N) = replicate N (Dial host SERVER_PORT)"
  by (induction N arbitrary: k0) (simp_all add: refusals_Suc, simp add: refusals_def)

lemma other_refusals:
  assumes "\<And>h p. \<not> P (Dial h p)" and "\<And>m. \<not> P (Print m)" and "\<And>n. \<not> P (Sleep n)"
  shows "filter P (refusals e host k0 N) = []"
  by (induction N arbitrary: k0) (simp_all add: refusals_Suc assms, simp add: refusals_def)

lemma prelude_projections:
  "filter is_dial_or_sleep (prelude e f host data cksum N) =
     concat (replicate N [Dial host SERVER_PORT, Sleep 3]) @ [Dial host SERVER_PORT]"
  "filter is_network (prelude e f host data cksum N) = replicate (Suc N) (Dial host SERVER_PORT)"
  "filter is_ReadFile (prelude e f host data cksum N) = [ReadFile f]"
  "filter is_Open (prelude e f host data cksum N) = [Open f]"
  "filter is_failed_read (prelude e f host data cksum N) = []"
  using calculateCRC32_log [of e f]
  by (auto simp: prelude_def dial_or_sleep_refusals network_refusals other_refusals
      replicate_append_same)

lemma distinct_kinds:
  "distinct (Header # map (\<lambda>j. Chunk (BUFFER_SIZE * j)) [0..<k] @ [Chunk (BUFFER_SIZE * k)])"
  "distinct (Header # map (\<lambda>j. Chunk (BUFFER_SIZE * j)) [0..<k] @ [Checksum])"
  by (auto simp: distinct_map inj_on_def BUFFER_SIZE_def)

text \<open>
  C7. Let the image load and the checksum pass succeed. If the first \<open>N\<close> calls of
  \<^verbatim>\<open>net.Dial\<close> fail and the next one connects, for any \<open>N\<close>, the run makes exactly \<open>N + 1\<close>
  calls, sleeps 3 seconds after each of the \<open>N\<close> failures, and the next thing it does on
  the network is to write the size header. If every call fails, \<^verbatim>\<open>sendFirmware\<close> never
  returns: there is no limit on the number of calls. Nothing else is done twice in a
  run: the image is loaded once, the file is opened once, no two writes to the
  connection are of the same kind (header, chunk at an offset, checksum), and at most
  one read on the connection returns an error.
\<close>

theorem only_connecting_is_retried:
  assumes "fs_ReadFile e firmwareFile = Inr data"
    and "fst (calculateCRC32 e firmwareFile) = Inr cksum"
  shows "(\<forall>N. (\<forall>k<N. net_Dial e SERVER_IP SERVER_PORT k \<noteq> None) \<and>
              net_Dial e SERVER_IP SERVER_PORT N = None \<longrightarrow>
              (\<exists>out tr rem.
                 sendFirmware e firmwareFile = Some (out, tr) \<and>
                 filter is_dial_or_sleep tr =
                   concat (replicate N [Dial SERVER_IP SERVER_PORT, Sleep 3]) @
                   [Dial SERVER_IP SERVER_PORT] \<and>
                 filter is_network tr =
                   replicate (Suc N) (Dial SERVER_IP SERVER_PORT) @
                   Write Header (PutUint32 (of_nat (length data))) # rem \<and>
                 length (filter is_ReadFile tr) = 1 \<and>
                 length (filter is_Open tr) = 1 \<and>
                 distinct (map fst (writes tr)) \<and>
                 length (filter is_failed_read tr) \<le> 1)) \<and>
         ((\<forall>k. net_Dial e SERVER_IP SERVER_PORT k \<noteq> None) \<longrightarrow>
            sendFirmware e firmwareFile = None)"
proof (intro conjI allI impI)
  assume "\<forall>k. net_Dial e SERVER_IP SERVER_PORT k \<noteq> None"
  with assms show "sendFirmware e firmwareFile = None"
    by (simp add: sendFirmware_def send_body_never)
next
  fix N
  assume "(\<forall>k<N. net_Dial e SERVER_IP SERVER_PORT k \<noteq> None) \<and>
          net_Dial e SERVER_IP SERVER_PORT N = None"
  with assms have reach: "reaches_server e firmwareFile SERVER_IP data cksum N"
    by (simp add: reaches_server_def)
  let ?pre = "prelude e firmwareFile SERVER_IP data cksum N"
  let ?hdr = "[Write Header (PutUint32 (of_nat (length data))), BarNew (length data)]"
  from run_cases [OF reach] obtain out k post where
    run: "sendFirmware e firmwareFile = Some (out, ?pre @ ?hdr @ acked_steps data 0 k @ post)"
    and post: "(\<exists>buf err. post =
                 [Write (Chunk (BUFFER_SIZE * k)) (take BUFFER_SIZE (drop (BUFFER_SIZE * k) data)),
                  ReadFull (length ACK_MSG) buf err, Print MsgTransmissionFailed, ConnClose]) \<or>
               (\<exists>buf err m. post =
                 [Write Checksum (PutUint32 cksum), Print (MsgUploadCompleted cksum),
                  ReadFull (length CRC_OK_MSG) buf err, Print m, ConnClose])"
    by blast
  let ?tr = "?pre @ ?hdr @ acked_steps data 0 k @ post"
  have ds: "filter is_dial_or_sleep ?tr =
            concat (replicate N [Dial SERVER_IP SERVER_PORT, Sleep 3]) @ [Dial SERVER_IP SERVER_PORT]"
    using post by (auto simp: prelude_projections filter_acked_steps)
  have net: "filter is_network ?tr =
             replicate (Suc N) (Dial SERVER_IP SERVER_PORT) @
             Write Header (PutUint32 (of_nat (length data))) #
             filter is_network (acked_steps data 0 k @ post)"
    by (simp add: prelude_projections del: replicate_Suc)
  have rf: "length (filter is_ReadFile ?tr) = 1"
    using post by (auto simp: prelude_projections filter_acked_steps)
  have op: "length (filter is_Open ?tr) = 1"
    using post by (auto simp: prelude_projections filter_acked_steps)
  have fr: "length (filter is_failed_read ?tr) \<le> 1"
    using post by (auto simp: prelude_projections filter_acked_steps)
  have "map fst (writes ?tr) =
          Header # map (\<lambda>j. Chunk (BUFFER_SIZE * j)) [0..<k] @ [Chunk (BUFFER_SIZE * k)] \<or>
        map fst (writes ?tr) =
          Header # map (\<lambda>j. Chunk (BUFFER_SIZE * j)) [0..<k] @ [Checksum]"
    using post by (auto simp: writes_Cons writes_kinds_acked)
  then have dw: "distinct (map fst (writes ?tr))"
    using distinct_kinds [of k] by auto
  from run ds net rf op fr dw
  show "\<exists>out tr rem.
          sendFirmware e firmwareFile = Some (out, tr) \<and>
          filter is_dial_or_sleep tr =
            concat (replicate N [Dial SERVER_IP SERVER_PORT, Sleep 3]) @ [Dial SERVER_IP SERVER_PORT] \<and>
          filter is_network tr =
            replicate (Suc N) (Dial SERVER_IP SERVER_PORT) @
            Write Header (PutUint32 (of_nat (length data))) # rem \<and>
          length (filter is_ReadFile tr) = 1 \<and>
          length (filter is_Open tr) = 1 \<and>
          distinct (map fst (writes tr)) \<and>
          length (filter is_failed_read tr) \<le> 1"
    by blast
qed

theorem only_connecting_is_retried_witness:
  "(\<exists>out tr rem.
      sendFirmware (sample_env image300 (bytes ''ACKACKCRC_OK'') 2) ''fw.bin'' = Some (out, tr) \<and>
      filter is_dial_or_sleep tr =
        [Dial SERVER_IP SERVER_PORT, Sleep 3, Dial SERVER_IP SERVER_PORT, Sleep 3,
         Dial SERVER_IP SERVER_PORT] \<and>
      filter is_network tr =
        [Dial SERVER_IP SERVER_PORT, Dial SERVER_IP SERVER_PORT, Dial SERVER_IP SERVER_PORT,
         Write Header [0, 0, 1, 44]] @ rem \<and>
      distinct (map fst (writes tr))) \<and>
   sendFirmware unreachable_env ''fw.bin'' = None"
proof -
  let ?e = "sample_env image300 (bytes ''ACKACKCRC_OK'') 2"
  have rf: "fs_ReadFile ?e ''fw.bin'' = Inr image300"
    and crc: "fst (calculateCRC32 ?e ''fw.bin'') = Inr (ChecksumIEEE image300)"
    and dial: "(\<forall>k<2. net_Dial ?e SERVER_IP SERVER_PORT k \<noteq> None) \<and>
               net_Dial ?e SERVER_IP SERVER_PORT 2 = None"
    using reaches_sample [of image300 "bytes ''ACKACKCRC_OK''" 2 SERVER_IP]
    by (simp_all add: reaches_server_def)
  have hdr: "PutUint32 (of_nat (length image300)) = [0, 0, 1, 44]"
    by (simp add: PutUint32_def image300_def)
  from only_connecting_is_retried [OF rf crc] dial
  have "\<exists>out tr rem.
      sendFirmware ?e ''fw.bin'' = Some (out, tr) \<and>
      filter is_dial_or_sleep tr =
        concat (replicate 2 [Dial SERVER_IP SERVER_PORT, Sleep 3]) @ [Dial SERVER_IP SERVER_PORT] \<and>
      filter is_network tr =
        replicate (Suc 2) (Dial SERVER_IP SERVER_PORT) @
        Write Header (PutUint32 (of_nat (length image300))) # rem \<and>
      length (filter is_ReadFile tr) = 1 \<and>
      length (filter is_Open tr) = 1 \<and>
      distinct (map fst (writes tr)) \<and>
      length (filter is_failed_read tr) \<le> 1"
    by blast
  then have 1: "\<exists>out tr rem.
      sendFirmware ?e ''fw.bin'' = Some (out, tr) \<and>
      filter is_dial_or_sleep tr =
        [Dial SERVER_IP SERVER_PORT, Sleep 3, Dial SERVER_IP SERVER_PORT, Sleep 3,
         Dial SERVER_IP SERVER_PORT] \<and>
      filter is_network tr =
        [Dial SERVER_IP SERVER_PORT, Dial SERVER_IP SERVER_PORT, Dial SERVER_IP SERVER_PORT,
         Write Header [0, 0, 1, 44]] @ rem \<and>
      distinct (map fst (writes tr))"
    unfolding hdr by (auto simp: numeral_2_eq_2)
  have rf': "fs_ReadFile unreachable_env ''fw.bin'' = Inr image300"
    by (simp add: unreachable_env_def sample_env_def)
  have crc': "fst (calculateCRC32 unreachable_env ''fw.bin'') = Inr (ChecksumIEEE image300)"
    by (simp add: unreachable_env_def sample_env_def
        calculateCRC32_delivers_content [of _ _ "\<lparr>content = image300, plan = []\<rparr>"] delivers_content_def)
  have never: "\<forall>k. net_Dial unreachable_env SERVER_IP SERVER_PORT k \<noteq> None"
    by (simp add: unreachable_env_def)
  from only_connecting_is_retried [OF rf' crc'] never
  have 2: "sendFirmware unreachable_env ''fw.bin'' = None"
    by blast
  from 1 2 show ?thesis ..
qed

subsection \<open>The checksum that is sent\<close>

lemma trailer_acked_steps [simp]: "filter (\<lambda>w. fst w = Checksum) (writes (acked_steps data i n)) = []"
  by (simp add: writes_acked_steps filter_map comp_def)

lemma trailer_run_acked:
  "trailer (prelude e f host data cksum N @
            [Write Header h, BarNew S] @ acked_steps data 0 n @
            [Write Checksum p, Print m1, ReadFull k buf err, Print m2, ConnClose]) = [p]"
  by (simp add: trailer_def writes_Cons)

lemma chunks_run_acked:
  "chunks_sent (prelude e f host data cksum N @
            [Write Header h, BarNew S] @ acked_steps data 0 n @
            [Write Checksum p, Print m1, ReadFull k buf err, Print m2, ConnClose]) =
   map (\<lambda>j. (BUFFER_SIZE * j, take BUFFER_SIZE (drop (BUFFER_SIZE * j) data))) [0..<n]"
  using chunks_sent_writes [OF writes_prelude]
  by (simp add: chunks_sent_Cons chunks_sent_acked_steps)

lemma stale_reaches: "reaches_server stale_env ''fw.bin'' SERVER_IP [0xFF] (ChecksumIEEE []) 0"
  by (simp add: reaches_server_def stale_env_def sample_env_def
      calculateCRC32_delivers_content [of _ _ "\<lparr>content = [], plan = []\<rparr>"] delivers_content_def)

lemma stale_run:
  "\<exists>out tr. sendFirmware stale_env ''fw.bin'' = Some (out, tr) \<and>
     trailer tr = [[0, 0, 0, 0]] \<and> chunks_sent tr = [(0, [0xFF])]"
proof -
  have n: "n_chunks (length [0xFF :: byte]) = 1"
    by (simp add: n_chunks_def BUFFER_SIZE_def)
  have n': "n_chunks (Suc 0) = 1"
    using n by simp
  have rx: "rx (net_conn stale_env) = acks (n_chunks (length [0xFF :: byte])) @ bytes ''CRC_OK''"
    unfolding n by (simp add: stale_env_def acks_def bytes_def ACK_MSG_def)
  have p: "PutUint32 (ChecksumIEEE []) = [0, 0, 0, 0]"
    by (simp add: ChecksumIEEE_Nil PutUint32_def)
  obtain out tr where run: "sendFirmware stale_env ''fw.bin'' = Some (out, tr)"
    and tr: "tr = prelude stale_env ''fw.bin'' SERVER_IP [0xFF] (ChecksumIEEE []) 0 @
           [Write Header (PutUint32 (of_nat (length [0xFF :: byte]))), BarNew (length [0xFF :: byte])] @
           acked_steps [0xFF] 0 (n_chunks (length [0xFF :: byte])) @
           [Write Checksum (PutUint32 (ChecksumIEEE [])), Print (MsgUploadCompleted (ChecksumIEEE [])),
            ReadFull (length CRC_OK_MSG)
              (fst (reply (net_conn stale_env) (bytes ''CRC_OK'') (length CRC_OK_MSG)))
              (snd (reply (net_conn stale_env) (bytes ''CRC_OK'') (length CRC_OK_MSG))),
            Print (if take (length CRC_OK_MSG) (bytes ''CRC_OK'') = bytes CRC_OK_MSG
                   then MsgVerifyPassed else MsgVerifyFailed),
            ConnClose]"
    using run_acked [OF stale_reaches rx] by blast
  have "trailer tr = [PutUint32 (ChecksumIEEE [])]"
    unfolding tr by (rule trailer_run_acked)
  moreover have "chunks_sent tr =
        map (\<lambda>j. (BUFFER_SIZE * j, take BUFFER_SIZE (drop (BUFFER_SIZE * j) [0xFF])))
          [0..<n_chunks (length [0xFF :: byte])]"
    unfolding tr by (rule chunks_run_acked)
  ultimately show ?thesis
    using run by (simp add: n' p BUFFER_SIZE_def)
qed

text \<open>
  C9. The checksum that is sent comes from \<^verbatim>\<open>calculateCRC32\<close>, that is from the file as
  \<^verbatim>\<open>os.Open\<close> finds it after \<^verbatim>\<open>os.ReadFile\<close> has loaded the image. With every chunk
  acknowledged and the reads of the opened file handing out its content, the run writes
  one checksum, the CRC-32 of the content of the opened file, while the chunks put
  together are the loaded image; when both contents are the same, the checksum is the
  CRC-32 of the bytes sent as chunks. When they differ it need not be: in the run where
  the file is emptied between the two reads, the chunk that is sent is the byte \<open>0xFF\<close>
  and the checksum that is sent is that of no bytes.
\<close>

theorem trailer_from_second_read:
  assumes "reaches_server e firmwareFile SERVER_IP data cksum N"
    and "rx (net_conn e) = acks (n_chunks (length data)) @ rest"
    and "fs_Open e firmwareFile = Inr fl" and "delivers_content fl"
  shows "(\<exists>out tr. sendFirmware e firmwareFile = Some (out, tr) \<and>
            trailer tr = [PutUint32 (ChecksumIEEE (content fl))] \<and>
            concat (map snd (chunks_sent tr)) = data \<and>
            (content fl = data \<longrightarrow>
               trailer tr = [PutUint32 (ChecksumIEEE (concat (map snd (chunks_sent tr))))])) \<and>
         (\<exists>out tr. sendFirmware stale_env ''fw.bin'' = Some (out, tr) \<and>
            trailer tr \<noteq> [PutUint32 (ChecksumIEEE (concat (map snd (chunks_sent tr))))])"
proof
  have "fst (calculateCRC32 e firmwareFile) = Inr (ChecksumIEEE (content fl))"
    using assms(3,4) by (simp add: calculateCRC32_delivers_content)
  with assms(1) have cksum: "cksum = ChecksumIEEE (content fl)"
    by (simp add: reaches_server_def)
  have cat: "concat (map snd (map (\<lambda>j. (BUFFER_SIZE * j, take BUFFER_SIZE (drop (BUFFER_SIZE * j) data)))
               [0..<n_chunks (length data)])) = data"
    by (rule chunk_list_props(1))
  obtain out tr where run: "sendFirmware e firmwareFile = Some (out, tr)"
    and tr: "tr = prelude e firmwareFile SERVER_IP data cksum N @
           [Write Header (PutUint32 (of_nat (length data))), BarNew (length data)] @
           acked_steps data 0 (n_chunks (length data)) @
           [Write Checksum (PutUint32 cksum), Print (MsgUploadCompleted cksum),
            ReadFull (length CRC_OK_MSG) (fst (reply (net_conn e) rest (length CRC_OK_MSG)))
              (snd (reply (net_conn e) rest (length CRC_OK_MSG))),
            Print (if take (length CRC_OK_MSG) rest = bytes CRC_OK_MSG
                   then MsgVerifyPassed else MsgVerifyFailed),
            ConnClose]"
    using run_acked [OF assms(1,2)] by blast
  have t: "trailer tr = [PutUint32 cksum]"
    unfolding tr by (rule trailer_run_acked)
  have "chunks_sent tr =
        map (\<lambda>j. (BUFFER_SIZE * j, take BUFFER_SIZE (drop (BUFFER_SIZE * j) data)))
          [0..<n_chunks (length data)]"
    unfolding tr by (rule chunks_run_acked)
  with cat have c: "concat (map snd (chunks_sent tr)) = data"
    by simp
  from run t c show "\<exists>out tr. sendFirmware e firmwareFile = Some (out, tr) \<and>
            trailer tr = [PutUint32 (ChecksumIEEE (content fl))] \<and>
            concat (map snd (chunks_sent tr)) = data \<and>
            (content fl = data \<longrightarrow>
               trailer tr = [PutUint32 (ChecksumIEEE (concat (map snd (chunks_sent tr))))])"
    by (auto simp: cksum)
next
  from stale_run obtain out tr where run: "sendFirmware stale_env ''fw.bin'' = Some (out, tr)"
    and t: "trailer tr = [[0, 0, 0, 0]]" and c: "chunks_sent tr = [(0, [0xFF])]"
    by blast
  have "PutUint32 (ChecksumIEEE (concat (map snd (chunks_sent tr)))) = [0xFF, 0, 0, 0]"
    by (simp add: c ChecksumIEEE_ff PutUint32_def)
  with run t show "\<exists>out tr. sendFirmware stale_env ''fw.bin'' = Some (out, tr) \<and>
            trailer tr \<noteq> [PutUint32 (ChecksumIEEE (concat (map snd (chunks_sent tr))))]"
    by auto
qed

theorem trailer_from_second_read_witness:
  "\<exists>out tr. sendFirmware env300 ''fw.bin'' = Some (out, tr) \<and>
     trailer tr = [PutUint32 (ChecksumIEEE image300)] \<and>
     trailer tr = [PutUint32 (ChecksumIEEE (concat (map snd (chunks_sent tr))))]"
proof -
  let ?fl = "\<lparr>content = image300, plan = [Deliver 7, Deliver 1000]\<rparr>"
  have op: "fs_Open env300 ''fw.bin'' = Inr ?fl"
    by (simp add: env300_def)
  have nf: "delivers_content ?fl"
    by (simp add: delivers_content_def)
  have reach: "reaches_server env300 ''fw.bin'' SERVER_IP image300 (ChecksumIEEE image300) 2"
    using calculateCRC32_delivers_content [OF op nf]
    by (simp add: reaches_server_def) (simp add: env300_def)
  have rx: "rx (net_conn env300) = acks (n_chunks (length image300)) @ bytes ''CRC_OK''"
    by (simp add: n_chunks_300 acks_def bytes_def ACK_MSG_def numeral_2_eq_2 env300_def)
  from trailer_from_second_read [OF reach rx op nf] show ?thesis
    by auto
qed

subsection \<open>Write errors\<close>

lemma first_connect:
  assumes "\<not> (\<forall>k. net_Dial e host SERVER_PORT k \<noteq> None)"
  obtains N where "\<forall>k<N. net_Dial e host SERVER_PORT k \<noteq> None"
    and "net_Dial e host SERVER_PORT N = None"
proof -
  define N where "N = (LEAST n. net_Dial e host SERVER_PORT n = None)"
  from assms have ex: "\<exists>n. net_Dial e host SERVER_PORT n = None"
    by simp
  have "net_Dial e host SERVER_PORT N = None"
    unfolding N_def using ex by (rule LeastI_ex)
  moreover have "\<forall>k<N. net_Dial e host SERVER_PORT k \<noteq> None"
    unfolding N_def using not_less_Least by blast
  ultimately show ?thesis
    using that by blast
qed

lemma refusals_env:
  "net_Dial e' = net_Dial e \<Longrightarrow> refusals e' host k0 N = refusals e host k0 N"
  by (simp add: refusals_def)

lemma dial_loop_env:
  assumes "net_Dial e' = net_Dial e"
  shows "dial_loop e' host 0 evs = dial_loop e host 0 evs"
proof (cases "\<forall>k. net_Dial e host SERVER_PORT k \<noteq> None")
  case True
  then show ?thesis
    using assms by (simp add: dial_loop_never)
next
  case False
  then obtain N where a: "\<forall>k<N. net_Dial e host SERVER_PORT (0 + k) \<noteq> None"
    and b: "net_Dial e host SERVER_PORT (0 + N) = None"
    using first_connect [of e host] by auto
  from a b have a': "\<forall>k<N. net_Dial e' host SERVER_PORT (0 + k) \<noteq> None"
    and b': "net_Dial e' host SERVER_PORT (0 + N) = None"
    using assms by simp_all
  show ?thesis
    unfolding dial_loop_connects [OF a b] dial_loop_connects [OF a' b']
    by (simp add: refusals_env [OF assms])
qed

lemma reply_tx_errs: "reply (c\<lparr>tx_errs := errs\<rparr>) rest n = reply c rest n"
  by (simp add: reply_def io_ReadFull.simps)

lemma transfer_tx_errs:
  "transfer rep (c\<lparr>tx_errs := errs\<rparr>) data cksum = transfer rep c data cksum"
  using acks_split [of "rx c" "n_chunks (length data)"]
proof
  assume "\<exists>rest. rx c = acks (n_chunks (length data)) @ rest"
  then obtain rest where rx: "rx c = acks (n_chunks (length data)) @ rest" ..
  then have rx': "rx (c\<lparr>tx_errs := errs\<rparr>) = acks (n_chunks (length data)) @ rest"
    by simp
  show ?thesis
    unfolding transfer_acked [OF rx] transfer_acked [OF rx'] reply_tx_errs ..
next
  assume "\<exists>k<n_chunks (length data). \<exists>rest. rx c = acks k @ rest \<and>
            take (length ACK_MSG) rest \<noteq> bytes ACK_MSG"
  then obtain k rest where k: "k < n_chunks (length data)" and rx: "rx c = acks k @ rest"
    and bad: "take (length ACK_MSG) rest \<noteq> bytes ACK_MSG"
    by blast
  from k have lt: "BUFFER_SIZE * k < length data"
    by (simp add: n_chunks_gt)
  from rx have rx': "rx (c\<lparr>tx_errs := errs\<rparr>) = acks k @ rest"
    by simp
  show ?thesis
    unfolding transfer_nak [OF rx bad lt] transfer_nak [OF rx' bad lt] reply_tx_errs ..
qed

lemma calculateCRC32_env:
  "fs_Open e' = fs_Open e \<Longrightarrow> calculateCRC32 e' p = calculateCRC32 e p"
  by (simp add: calculateCRC32_def)

lemma send_body_tx_errs:
  "send_body rep (e\<lparr>net_conn := (net_conn e)\<lparr>tx_errs := errs\<rparr>\<rparr>) f host = send_body rep e f host"
proof -
  let ?e' = "e\<lparr>net_conn := (net_conn e)\<lparr>tx_errs := errs\<rparr>\<rparr>"
  have d: "dial_loop ?e' host 0 evs = dial_loop e host 0 evs" for evs
    by (rule dial_loop_env) simp
  have c: "calculateCRC32 ?e' f = calculateCRC32 e f"
    by (rule calculateCRC32_env) simp
  show ?thesis
    unfolding send_body_def c d
    by (simp add: transfer_tx_errs Let_def split: sum.split prod.split option.split)
qed

lemma returns_reaches:
  assumes "sendFirmware e f = Some (out, tr)"
    and "out = TransmissionFailed \<or> out = VerificationFailed \<or> out = Success"
  shows "\<exists>data cksum N. reaches_server e f SERVER_IP data cksum N"
proof (cases "fs_ReadFile e f")
  case (Inl err)
  with assms show ?thesis
    by (auto simp: sendFirmware_def send_body_not_found)
next
  case (Inr data)
  show ?thesis
  proof (cases "fst (calculateCRC32 e f)")
    case (Inl err)
    with assms Inr show ?thesis
      by (auto simp: sendFirmware_def send_body_crc_failure)
  next
    case crc: (Inr cksum)
    have "\<not> (\<forall>k. net_Dial e SERVER_IP SERVER_PORT k \<noteq> None)"
    proof
      assume "\<forall>k. net_Dial e SERVER_IP SERVER_PORT k \<noteq> None"
      from send_body_never [OF Inr crc this, of report] assms(1) show False
        by (simp add: sendFirmware_def)
    qed
    then obtain N where "\<forall>k<N. net_Dial e SERVER_IP SERVER_PORT k \<noteq> None"
      and "net_Dial e SERVER_IP SERVER_PORT N = None"
      by (rule first_connect)
    with Inr crc show ?thesis
      unfolding reaches_server_def by blast
  qed
qed

lemma failure_has_bad_read:
  assumes "sendFirmware e f = Some (out, tr)"
  shows "(out = TransmissionFailed \<longrightarrow>
            (\<exists>buf err. ReadFull (length ACK_MSG) buf err \<in> set tr \<and>
                       (err \<noteq> None \<or> buf \<noteq> bytes ACK_MSG))) \<and>
         (out = VerificationFailed \<longrightarrow>
            (\<exists>buf err. ReadFull (length CRC_OK_MSG) buf err \<in> set tr \<and>
                       (err \<noteq> None \<or> buf \<noteq> bytes CRC_OK_MSG)))"
proof (cases "out = TransmissionFailed \<or> out = VerificationFailed")
  case False
  then show ?thesis by simp
next
  case True
  with assms obtain data cksum N where reach: "reaches_server e f SERVER_IP data cksum N"
    using returns_reaches by blast
  from acks_split [of "rx (net_conn e)" "n_chunks (length data)"] show ?thesis
  proof
    assume "\<exists>rest. rx (net_conn e) = acks (n_chunks (length data)) @ rest"
    then obtain rest where rx: "rx (net_conn e) = acks (n_chunks (length data)) @ rest" ..
    let ?buf = "fst (reply (net_conn e) rest (length CRC_OK_MSG))"
    let ?err = "snd (reply (net_conn e) rest (length CRC_OK_MSG))"
    have ok: "(?err \<noteq> None \<or> ?buf \<noteq> bytes CRC_OK_MSG) \<longleftrightarrow>
              take (length CRC_OK_MSG) rest \<noteq> bytes CRC_OK_MSG"
      using reply_ok_iff [of "net_conn e" rest CRC_OK_MSG] by auto
    from run_acked [OF reach rx] assms
    have "out = (if take (length CRC_OK_MSG) rest = bytes CRC_OK_MSG then Success else VerificationFailed)"
      and "ReadFull (length CRC_OK_MSG) ?buf ?err \<in> set tr"
      by auto
    with ok show ?thesis
      by (auto split: if_splits)
  next
    assume "\<exists>k<n_chunks (length data). \<exists>rest. rx (net_conn e) = acks k @ rest \<and>
              take (length ACK_MSG) rest \<noteq> bytes ACK_MSG"
    then obtain k rest where k: "k < n_chunks (length data)" and rx: "rx (net_conn e) = acks k @ rest"
      and bad: "take (length ACK_MSG) rest \<noteq> bytes ACK_MSG"
      by blast
    from k have lt: "BUFFER_SIZE * k < length data"
      by (simp add: n_chunks_gt)
    let ?buf = "fst (reply (net_conn e) rest (length ACK_MSG))"
    let ?err = "snd (reply (net_conn e) rest (length ACK_MSG))"
    have nok: "?err \<noteq> None \<or> ?buf \<noteq> bytes ACK_MSG"
      using reply_ok_iff [of "net_conn e" rest ACK_MSG] bad by auto
    from run_nak [OF reach rx bad lt] assms
    have "out = TransmissionFailed" and "ReadFull (length ACK_MSG) ?buf ?err \<in> set tr"
      by auto
    with nok show ?thesis
      by auto
  qed
qed

text \<open>
  C10. The results of the writes to the connection play no part in a run: whatever
  errors the writes of the header, the chunks and the checksum return, \<^verbatim>\<open>sendFirmware\<close>
  does the same and ends the same. A run ends as a failed transmission only with a read
  of an acknowledgment that failed or returned other bytes than \<^verbatim>\<open>ACK\<close>, and as a failed
  verification only with such a read of the reply to the checksum.
\<close>

theorem write_results_ignored:
  "sendFirmware (e\<lparr>net_conn := (net_conn e)\<lparr>tx_errs := errs\<rparr>\<rparr>) firmwareFile =
     sendFirmware e firmwareFile \<and>
   (\<forall>tr. sendFirmware e firmwareFile = Some (TransmissionFailed, tr) \<longrightarrow>
      (\<exists>buf err. ReadFull (length ACK_MSG) buf err \<in> set tr \<and>
                 (err \<noteq> None \<or> buf \<noteq> bytes ACK_MSG))) \<and>
   (\<forall>tr. sendFirmware e firmwareFile = Some (VerificationFailed, tr) \<longrightarrow>
      (\<exists>buf err. ReadFull (length CRC_OK_MSG) buf err \<in> set tr \<and>
                 (err \<noteq> None \<or> buf \<noteq> bytes CRC_OK_MSG)))"
  using failure_has_bad_read [of e firmwareFile]
  by (simp add: sendFirmware_def send_body_tx_errs)

theorem write_results_ignored_witness:
  "sendFirmware ((sample_env image300 (bytes ''ACKACKCRC_OK'') 0)
       \<lparr>net_conn := \<lparr>rx = bytes ''ACKACKCRC_OK'', rx_err = EOF,
                    tx_errs = replicate 4 (Some (OSError ''broken pipe''))\<rparr>\<rparr>) ''fw.bin'' =
   sendFirmware (sample_env image300 (bytes ''ACKACKCRC_OK'') 0) ''fw.bin'' \<and>
   (\<exists>tr. sendFirmware (sample_env image300 (bytes ''ACKACKCRC_OK'') 0) ''fw.bin'' = Some (Success, tr)) \<and>
   (\<exists>tr buf err. sendFirmware (sample_env image300 (bytes ''NAK'') 0) ''fw.bin'' =
        Some (TransmissionFailed, tr) \<and>
      ReadFull (length ACK_MSG) buf err \<in> set tr \<and> (err \<noteq> None \<or> buf \<noteq> bytes ACK_MSG))"
proof -
  let ?e = "sample_env image300 (bytes ''ACKACKCRC_OK'') 0"
  let ?errs = "replicate 4 (Some (OSError ''broken pipe''))"
  have "(net_conn ?e)\<lparr>tx_errs := ?errs\<rparr> =
        \<lparr>rx = bytes ''ACKACKCRC_OK'', rx_err = EOF, tx_errs = ?errs\<rparr>"
    by simp
  with write_results_ignored [where e = ?e and errs = ?errs and firmwareFile = "''fw.bin''"]
  have 1: "sendFirmware (?e\<lparr>net_conn := \<lparr>rx = bytes ''ACKACKCRC_OK'', rx_err = EOF,
                    tx_errs = ?errs\<rparr>\<rparr>) ''fw.bin'' = sendFirmware ?e ''fw.bin''"
    by simp
  have rx: "rx (net_conn ?e) = acks (n_chunks (length image300)) @ bytes ''CRC_OK''"
    by (simp add: n_chunks_300 acks_def bytes_def ACK_MSG_def numeral_2_eq_2)
  have 2: "\<exists>tr. sendFirmware ?e ''fw.bin'' = Some (Success, tr)"
    unfolding run_acked [OF reaches_sample rx] by (simp add: CRC_OK_MSG_def)
  let ?n = "sample_env image300 (bytes ''NAK'') 0"
  have rx': "rx (net_conn ?n) = acks 0 @ bytes ''NAK''"
    by (simp add: acks_def)
  have bad: "take (length ACK_MSG) (bytes ''NAK'') \<noteq> bytes ACK_MSG"
    by (simp add: bytes_def ACK_MSG_def)
  have lt: "BUFFER_SIZE * 0 < length image300"
    by (simp add: image300_def)
  from run_nak [OF reaches_sample rx' bad lt]
  obtain tr where run: "sendFirmware ?n ''fw.bin'' = Some (TransmissionFailed, tr)"
    by blast
  with write_results_ignored [where e = ?n and errs = "[]" and firmwareFile = "''fw.bin''"]
  have 3: "\<exists>tr buf err. sendFirmware ?n ''fw.bin'' = Some (TransmissionFailed, tr) \<and>
      ReadFull (length ACK_MSG) buf err \<in> set tr \<and> (err \<noteq> None \<or> buf \<noteq> bytes ACK_MSG)"
    by blast
  from 1 2 3 show ?thesis
    by blast
qed

section \<open>The claim about the address\<close>

subsection \<open>The matcher\<close>

lemma nullable_iff: "nullable r \<longleftrightarrow> [] \<in> lang r"
  by (induction r) auto

lemma Cons_in_Seq:
  "c # w \<in> lang (Seq r s) \<longleftrightarrow>
   ([] \<in> lang r \<and> c # w \<in> lang s) \<or> (\<exists>u v. w = u @ v \<and> c # u \<in> lang r \<and> v \<in> lang s)"
proof
  assume "c # w \<in> lang (Seq r s)"
  then obtain u v where uv: "c # w = u @ v" and u: "u \<in> lang r" and v: "v \<in> lang s"
    by auto
  show "([] \<in> lang r \<and> c # w \<in> lang s) \<or> (\<exists>u v. w = u @ v \<and> c # u \<in> lang r \<and> v \<in> lang s)"
  proof (cases u)
    case Nil
    with uv u v show ?thesis by simp
  next
    case (Cons a u')
    with uv have "a = c" and "w = u' @ v" by simp_all
    with Cons u v show ?thesis by blast
  qed
next
  assume "([] \<in> lang r \<and> c # w \<in> lang s) \<or> (\<exists>u v. w = u @ v \<and> c # u \<in> lang r \<and> v \<in> lang s)"
  then show "c # w \<in> lang (Seq r s)"
  proof
    assume "[] \<in> lang r \<and> c # w \<in> lang s"
    then have "c # w = [] @ (c # w) \<and> [] \<in> lang r \<and> c # w \<in> lang s"
      by simp
    then show ?thesis
      unfolding lang.simps by blast
  next
    assume "\<exists>u v. w = u @ v \<and> c # u \<in> lang r \<and> v \<in> lang s"
    then obtain u v where "w = u @ v" "c # u \<in> lang r" "v \<in> lang s"
      by blast
    then have "c # w = (c # u) @ v \<and> c # u \<in> lang r \<and> v \<in> lang s"
      by simp
    then show ?thesis
      unfolding lang.simps by blast
  qed
qed

lemma lang_deriv: "w \<in> lang (deriv c r) \<longleftrightarrow> c # w \<in> lang r"
proof (induction r arbitrary: w)
  case Zero
  show ?case by simp
next
  case Eps
  show ?case by simp
next
  case (Class cs)
  show ?case by simp
next
  case (Alt r s)
  then show ?case by simp
next
  case (Seq r s)
  have "w \<in> lang (deriv c (Seq r s)) \<longleftrightarrow>
        (\<exists>u v. w = u @ v \<and> u \<in> lang (deriv c r) \<and> v \<in> lang s) \<or>
        (nullable r \<and> w \<in> lang (deriv c s))"
    by auto
  also have "\<dots> \<longleftrightarrow> (\<exists>u v. w = u @ v \<and> c # u \<in> lang r \<and> v \<in> lang s) \<or>
                   ([] \<in> lang r \<and> c # w \<in> lang s)"
    by (simp only: Seq.IH nullable_iff)
  also have "\<dots> \<longleftrightarrow> c # w \<in> lang (Seq r s)"
    by (simp only: Cons_in_Seq) blast
  finally show ?case .
qed

lemma matches_iff: "matches r s \<longleftrightarrow> s \<in> lang r"
  by (induction s arbitrary: r) (simp_all add: nullable_iff lang_deriv)

subsection \<open>The language of the pattern\<close>

lemma in_Class: "s \<in> lang (Class A) \<longleftrightarrow> (\<exists>a. a \<in> set A \<and> s = [a])"
  by auto

lemma in_Seq: "s \<in> lang (Seq r q) \<longleftrightarrow> (\<exists>u v. u \<in> lang r \<and> v \<in> lang q \<and> s = u @ v)"
  by auto

lemma in_Opt: "s \<in> lang (Opt r) \<longleftrightarrow> s \<in> lang r \<or> s = []"
  by (auto simp: Opt_def)

lemma lang_Class3:
  "s \<in> lang (Seq (Class A) (Seq (Class B) (Class C))) \<longleftrightarrow>
   (\<exists>a b c. a \<in> set A \<and> b \<in> set B \<and> c \<in> set C \<and> s = [a, b, c])"
  (is "?L \<longleftrightarrow> ?R")
proof
  assume ?L
  then obtain u v w where "u \<in> lang (Class A)" "v \<in> lang (Class B)" "w \<in> lang (Class C)"
    "s = u @ v @ w"
    unfolding in_Seq by blast
  then obtain a b c where "a \<in> set A" "u = [a]" "b \<in> set B" "v = [b]" "c \<in> set C" "w = [c]"
    "s = u @ v @ w"
    unfolding in_Class by blast
  then show ?R by simp
next
  assume ?R
  then obtain a b c where "a \<in> set A" "b \<in> set B" "c \<in> set C" "s = [a, b, c]"
    by blast
  then have "[a] \<in> lang (Class A)" "[b] \<in> lang (Class B)" "[c] \<in> lang (Class C)"
    "s = [a] @ [b] @ [c]"
    by (simp_all add: in_Class)
  then show ?L unfolding in_Seq by blast
qed

lemma lang_OptClass3:
  "s \<in> lang (Seq (Opt (Class A)) (Seq (Class B) (Opt (Class C)))) \<longleftrightarrow>
   (\<exists>b. b \<in> set B \<and> s = [b]) \<or>
   (\<exists>b c. b \<in> set B \<and> c \<in> set C \<and> s = [b, c]) \<or>
   (\<exists>a b. a \<in> set A \<and> b \<in> set B \<and> s = [a, b]) \<or>
   (\<exists>a b c. a \<in> set A \<and> b \<in> set B \<and> c \<in> set C \<and> s = [a, b, c])"
  (is "?L \<longleftrightarrow> ?R")
proof
  assume ?L
  then obtain u v w where u: "u \<in> lang (Class A) \<or> u = []" and v: "v \<in> lang (Class B)"
    and w: "w \<in> lang (Class C) \<or> w = []" and s: "s = u @ v @ w"
    unfolding in_Seq in_Opt by blast
  from v obtain b where b: "b \<in> set B" "v = [b]"
    unfolding in_Class by blast
  from u w show ?R
  proof (elim disjE)
    assume "u \<in> lang (Class A)" "w \<in> lang (Class C)"
    then obtain a c where "a \<in> set A" "u = [a]" "c \<in> set C" "w = [c]"
      unfolding in_Class by blast
    with b s show ?R by simp
  next
    assume "u \<in> lang (Class A)" "w = []"
    then obtain a where "a \<in> set A" "u = [a]"
      unfolding in_Class by blast
    with b s \<open>w = []\<close> show ?R by simp
  next
    assume "u = []" "w \<in> lang (Class C)"
    then obtain c where "c \<in> set C" "w = [c]"
      unfolding in_Class by blast
    with b s \<open>u = []\<close> show ?R by simp
  next
    assume "u = []" "w = []"
    with b s show ?R by simp
  qed
next
  assume ?R
  then show ?L
  proof (elim disjE exE conjE)
    fix b assume "b \<in> set B" "s = [b]"
    then have "[] \<in> lang (Opt (Class A))" "[b] \<in> lang (Class B)" "[] \<in> lang (Opt (Class C))"
      "s = [] @ [b] @ []"
      by (simp_all add: in_Opt)
    then show ?L unfolding in_Seq by blast
  next
    fix b c assume "b \<in> set B" "c \<in> set C" "s = [b, c]"
    then have "[] \<in> lang (Opt (Class A))" "[b] \<in> lang (Class B)" "[c] \<in> lang (Opt (Class C))"
      "s = [] @ [b] @ [c]"
      by (simp_all add: in_Opt)
    then show ?L unfolding in_Seq by blast
  next
    fix a b assume "a \<in> set A" "b \<in> set B" "s = [a, b]"
    then have "[a] \<in> lang (Opt (Class A))" "[b] \<in> lang (Class B)" "[] \<in> lang (Opt (Class C))"
      "s = [a] @ [b] @ []"
      by (simp_all add: in_Opt)
    then show ?L unfolding in_Seq by blast
  next
    fix a b c assume "a \<in> set A" "b \<in> set B" "c \<in> set C" "s = [a, b, c]"
    then have "[a] \<in> lang (Opt (Class A))" "[b] \<in> lang (Class B)" "[c] \<in> lang (Opt (Class C))"
      "s = [a] @ [b] @ [c]"
      by (simp_all add: in_Opt)
    then show ?L unfolding in_Seq by blast
  qed
qed

lemma lang_octet_re:
  "s \<in> lang octet_re \<longleftrightarrow>
   (\<exists>a b c. a \<in> set ''2'' \<and> b \<in> set ''5'' \<and> c \<in> set ''012345'' \<and> s = [a, b, c]) \<or>
   (\<exists>a b c. a \<in> set ''2'' \<and> b \<in> set ''01234'' \<and> c \<in> set ''0123456789'' \<and> s = [a, b, c]) \<or>
   (\<exists>b. b \<in> set ''0123456789'' \<and> s = [b]) \<or>
   (\<exists>b c. b \<in> set ''0123456789'' \<and> c \<in> set ''0123456789'' \<and> s = [b, c]) \<or>
   (\<exists>a b. a \<in> set ''01'' \<and> b \<in> set ''0123456789'' \<and> s = [a, b]) \<or>
   (\<exists>a b c. a \<in> set ''01'' \<and> b \<in> set ''0123456789'' \<and> c \<in> set ''0123456789'' \<and> s = [a, b, c])"
  unfolding octet_re_def lang.simps(4) Un_iff lang_Class3 lang_OptClass3 ..

subsection \<open>Octets\<close>

lemma digit_le9: "c \<in> set ''0123456789'' \<Longrightarrow> is_digit c \<and> digit_val c \<le> 9"
  by (auto simp: is_digit_def digit_val_def)

lemma digit_le5: "c \<in> set ''012345'' \<Longrightarrow> is_digit c \<and> digit_val c \<le> 5"
  by (auto simp: is_digit_def digit_val_def)

lemma digit_le4: "c \<in> set ''01234'' \<Longrightarrow> is_digit c \<and> digit_val c \<le> 4"
  by (auto simp: is_digit_def digit_val_def)

lemma digit_le1: "c \<in> set ''01'' \<Longrightarrow> is_digit c \<and> digit_val c \<le> 1"
  by (auto simp: is_digit_def digit_val_def)

lemma digit_2: "c \<in> set ''2'' \<Longrightarrow> is_digit c \<and> digit_val c = 2"
  by (auto simp: is_digit_def digit_val_def)

lemma digit_5: "c \<in> set ''5'' \<Longrightarrow> is_digit c \<and> digit_val c = 5"
  by (auto simp: is_digit_def digit_val_def)

lemma digit_any: "is_digit c \<Longrightarrow> c \<in> set ''0123456789''"
  by (simp add: is_digit_def)

lemma digit_ge5: "is_digit c \<Longrightarrow> digit_val c \<le> 5 \<Longrightarrow> c \<in> set ''012345''"
  by (auto simp: is_digit_def digit_val_def)

lemma digit_ge4: "is_digit c \<Longrightarrow> digit_val c \<le> 4 \<Longrightarrow> c \<in> set ''01234''"
  by (auto simp: is_digit_def digit_val_def)

lemma digit_ge1: "is_digit c \<Longrightarrow> digit_val c \<le> 1 \<Longrightarrow> c \<in> set ''01''"
  by (auto simp: is_digit_def digit_val_def)

lemma digit_eq2: "is_digit c \<Longrightarrow> digit_val c = 2 \<Longrightarrow> c \<in> set ''2''"
  by (auto simp: is_digit_def digit_val_def)

lemma digit_eq5: "is_digit c \<Longrightarrow> digit_val c = 5 \<Longrightarrow> c \<in> set ''5''"
  by (auto simp: is_digit_def digit_val_def)

lemma digit_lt10: "is_digit c \<Longrightarrow> digit_val c \<le> 9"
  by (auto simp: is_digit_def digit_val_def)

lemma dec_value_simps:
  "dec_value [a] = digit_val a"
  "dec_value [a, b] = 10 * digit_val a + digit_val b"
  "dec_value [a, b, c] = 100 * digit_val a + 10 * digit_val b + digit_val c"
  by (simp_all add: dec_value_def)

lemma octet_ok_3:
  "octet_ok [a, b, c] \<longleftrightarrow>
   is_digit a \<and> is_digit b \<and> is_digit c \<and>
   100 * digit_val a + 10 * digit_val b + digit_val c \<le> 255"
  by (auto simp: octet_ok_def dec_value_simps)

lemma octet_ok_2: "octet_ok [a, b] \<longleftrightarrow> is_digit a \<and> is_digit b"
  using digit_lt10 [of a] digit_lt10 [of b] by (auto simp: octet_ok_def dec_value_simps)

lemma octet_ok_1: "octet_ok [a] \<longleftrightarrow> is_digit a"
  using digit_lt10 [of a] by (auto simp: octet_ok_def dec_value_simps)

lemma lang_octet_ok:
  assumes "s \<in> lang octet_re"
  shows "octet_ok s"
  using assms unfolding lang_octet_re
proof (elim disjE exE conjE)
  fix a b c
  assume "a \<in> set ''2''" "b \<in> set ''5''" "c \<in> set ''012345''" "s = [a, b, c]"
  with digit_2 [of a] digit_5 [of b] digit_le5 [of c] show ?thesis
    by (simp add: octet_ok_3)
next
  fix a b c
  assume "a \<in> set ''2''" "b \<in> set ''01234''" "c \<in> set ''0123456789''" "s = [a, b, c]"
  with digit_2 [of a] digit_le4 [of b] digit_le9 [of c] show ?thesis
    by (simp add: octet_ok_3)
next
  fix b
  assume "b \<in> set ''0123456789''" "s = [b]"
  with digit_le9 [of b] show ?thesis
    by (simp add: octet_ok_1)
next
  fix b c
  assume "b \<in> set ''0123456789''" "c \<in> set ''0123456789''" "s = [b, c]"
  with digit_le9 [of b] digit_le9 [of c] show ?thesis
    by (simp add: octet_ok_2)
next
  fix a b
  assume "a \<in> set ''01''" "b \<in> set ''0123456789''" "s = [a, b]"
  with digit_le1 [of a] digit_le9 [of b] show ?thesis
    by (simp add: octet_ok_2)
next
  fix a b c
  assume "a \<in> set ''01''" "b \<in> set ''0123456789''" "c \<in> set ''0123456789''" "s = [a, b, c]"
  with digit_le1 [of a] digit_le9 [of b] digit_le9 [of c] show ?thesis
    by (simp add: octet_ok_3)
qed

lemma octet_ok_lang:
  assumes "octet_ok s"
  shows "s \<in> lang octet_re"
proof -
  from assms have len: "s \<noteq> []" "length s \<le> 3"
    by (simp_all add: octet_ok_def)
  then consider a where "s = [a]" | a b where "s = [a, b]" | a b c where "s = [a, b, c]"
    by (cases s rule: list.exhaust; cases "tl s"; cases "tl (tl s)"; cases "tl (tl (tl s))") auto
  then show ?thesis
  proof cases
    case 1
    with assms have "is_digit a"
      by (simp add: octet_ok_1)
    then have "a \<in> set ''0123456789''"
      by (rule digit_any)
    with 1 show ?thesis
      unfolding lang_octet_re by blast
  next
    case 2
    with assms have "is_digit a" "is_digit b"
      by (simp_all add: octet_ok_2)
    then have "a \<in> set ''0123456789''" "b \<in> set ''0123456789''"
      by (auto intro: digit_any simp del: set_simps)
    with 2 show ?thesis
      unfolding lang_octet_re by blast
  next
    case 3
    with assms have d: "is_digit a" "is_digit b" "is_digit c"
      and v: "100 * digit_val a + 10 * digit_val b + digit_val c \<le> 255"
      by (simp_all add: octet_ok_3)
    from d have bc: "b \<in> set ''0123456789''" "c \<in> set ''0123456789''"
      by (auto intro: digit_any simp del: set_simps)
    consider "digit_val a \<le> 1"
      | "digit_val a = 2" "digit_val b \<le> 4"
      | "digit_val a = 2" "digit_val b = 5" "digit_val c \<le> 5"
      using v by linarith
    then show ?thesis
    proof cases
      case 1
      with d have "a \<in> set ''01''"
        by (auto intro: digit_ge1 simp del: set_simps)
      with 3 bc show ?thesis
        unfolding lang_octet_re by blast
    next
      case 2
      with d have "a \<in> set ''2''" "b \<in> set ''01234''"
        by (auto intro: digit_eq2 digit_ge4 simp del: set_simps)
      with 3 bc show ?thesis
        unfolding lang_octet_re by blast
    next
      case 3
      with d have "a \<in> set ''2''" "b \<in> set ''5''" "c \<in> set ''012345''"
        by (auto intro: digit_eq2 digit_eq5 digit_ge5 simp del: set_simps)
      with \<open>s = [a, b, c]\<close> show ?thesis
        unfolding lang_octet_re by blast
    qed
  qed
qed

lemma lang_octet_iff: "s \<in> lang octet_re \<longleftrightarrow> octet_ok s"
  using lang_octet_ok octet_ok_lang by blast

subsection \<open>Dotted quads\<close>

lemma lang_ip_re:
  "s \<in> lang ip_re \<longleftrightarrow>
   (\<exists>a b c d. octet_ok a \<and> octet_ok b \<and> octet_ok c \<and> octet_ok d \<and>
      s = a @ CHR ''.'' # b @ CHR ''.'' # c @ CHR ''.'' # d)"
  (is "?L \<longleftrightarrow> ?R")
proof
  have dot: "x \<in> lang (Class ''.'') \<longleftrightarrow> x = ''.''" for x
    by auto
  have step: "x \<in> lang (Seq octet_re (Class ''.'')) \<longleftrightarrow> (\<exists>a. octet_ok a \<and> x = a @ ''.'')" for x
    unfolding in_Seq dot lang_octet_iff by blast
  have rep: "Rep 3 r = Seq r (Seq r (Seq r Eps))" for r
    by (simp add: numeral_3_eq_3)
  {
    assume ?L
    then obtain x1 x2 x3 d where "x1 \<in> lang (Seq octet_re (Class ''.''))"
      "x2 \<in> lang (Seq octet_re (Class ''.''))" "x3 \<in> lang (Seq octet_re (Class ''.''))"
      "d \<in> lang octet_re" "s = (x1 @ x2 @ x3 @ []) @ d"
      unfolding ip_re_def rep in_Seq [of _ "Seq octet_re (Class ''.'')"] in_Seq [of s] lang.simps(2)
      by blast
    then obtain a b c where "octet_ok a" "octet_ok b" "octet_ok c" "octet_ok d"
      "s = ((a @ ''.'') @ (b @ ''.'') @ (c @ ''.'') @ []) @ d"
      unfolding step lang_octet_iff by blast
    then show ?R
      by auto
  next
    assume ?R
    then obtain a b c d where ok: "octet_ok a" "octet_ok b" "octet_ok c" "octet_ok d"
      and s: "s = a @ CHR ''.'' # b @ CHR ''.'' # c @ CHR ''.'' # d"
      by blast
    from ok have "a @ ''.'' \<in> lang (Seq octet_re (Class ''.''))"
      "b @ ''.'' \<in> lang (Seq octet_re (Class ''.''))"
      "c @ ''.'' \<in> lang (Seq octet_re (Class ''.''))" "d \<in> lang octet_re"
      unfolding step lang_octet_iff by blast+
    moreover have "s = ((a @ ''.'') @ (b @ ''.'') @ (c @ ''.'') @ []) @ d"
      using s by simp
    ultimately show ?L
      unfolding ip_re_def rep in_Seq [of _ "Seq octet_re (Class ''.'')"] in_Seq [of s] lang.simps(2)
      by blast
  }
qed

lemma split_dots_not_Nil [simp]: "split_dots s \<noteq> []"
  by (induction s) (auto split: list.splits)

lemma split_dots_field:
  "CHR ''.'' \<notin> set a \<Longrightarrow> split_dots (a @ CHR ''.'' # rest) = a # split_dots rest"
  by (induction a) (auto split: list.splits)

lemma split_dots_last: "CHR ''.'' \<notin> set a \<Longrightarrow> split_dots a = [a]"
  by (induction a) (auto split: list.splits)

lemma split_dots_Cons:
  "split_dots s = f # fs \<Longrightarrow>
   (fs = [] \<and> s = f) \<or> (\<exists>rest. s = f @ CHR ''.'' # rest \<and> split_dots rest = fs)"
proof (induction s arbitrary: f fs)
  case Nil
  then show ?case by simp
next
  case (Cons c s)
  show ?case
  proof (cases "c = CHR ''.''")
    case True
    with Cons.prems show ?thesis by auto
  next
    case False
    obtain g gs where g: "split_dots s = g # gs"
      by (cases "split_dots s") simp_all
    with Cons.prems False have f: "f = c # g" and fs: "fs = gs"
      by simp_all
    from Cons.IH [OF g] show ?thesis
      using f fs by auto
  qed
qed

lemma octet_no_dot: "octet_ok a \<Longrightarrow> CHR ''.'' \<notin> set a"
proof
  assume "octet_ok a" and "CHR ''.'' \<in> set a"
  then have "is_digit CHR ''.''"
    by (auto simp: octet_ok_def list_all_iff)
  then show False
    by (simp add: is_digit_def)
qed

lemma dotted_quad_iff:
  "dotted_quad s \<longleftrightarrow>
   (\<exists>a b c d. octet_ok a \<and> octet_ok b \<and> octet_ok c \<and> octet_ok d \<and>
      s = a @ CHR ''.'' # b @ CHR ''.'' # c @ CHR ''.'' # d)"
  (is "?L \<longleftrightarrow> ?R")
proof
  assume ?L
  then obtain a b c d where sp: "split_dots s = [a, b, c, d]"
    and ok: "octet_ok a" "octet_ok b" "octet_ok c" "octet_ok d"
    unfolding dotted_quad_def
    by (cases "split_dots s" rule: list.exhaust; cases "tl (split_dots s)";
        cases "tl (tl (split_dots s))"; cases "tl (tl (tl (split_dots s)))") auto
  from split_dots_Cons [OF sp] obtain r1 where r1: "s = a @ CHR ''.'' # r1" "split_dots r1 = [b, c, d]"
    by auto
  from split_dots_Cons [OF r1(2)] obtain r2 where r2: "r1 = b @ CHR ''.'' # r2" "split_dots r2 = [c, d]"
    by auto
  from split_dots_Cons [OF r2(2)] obtain r3 where r3: "r2 = c @ CHR ''.'' # r3" "split_dots r3 = [d]"
    by auto
  from split_dots_Cons [OF r3(2)] have "r3 = d"
    by auto
  with r1 r2 r3 ok show ?R
    by blast
next
  assume ?R
  then obtain a b c d where ok: "octet_ok a" "octet_ok b" "octet_ok c" "octet_ok d"
    and s: "s = a @ CHR ''.'' # b @ CHR ''.'' # c @ CHR ''.'' # d"
    by blast
  have "split_dots s = [a, b, c, d]"
    unfolding s using ok
    by (simp add: split_dots_field split_dots_last octet_no_dot)
  with ok show ?L
    by (simp add: dotted_quad_def)
qed

lemma isValidIP_iff: "isValidIP ip \<longleftrightarrow> dotted_quad ip"
  by (simp add: isValidIP_def matches_iff lang_ip_re dotted_quad_iff)

subsection \<open>The check in main\<close>

lemma dial_transfer:
  assumes "\<And>b. filter is_dial_or_sleep (rep b) = []"
  shows "filter is_dial_or_sleep (snd (transfer rep c data cksum)) = []"
  using acks_split [of "rx c" "n_chunks (length data)"]
proof
  assume "\<exists>rest. rx c = acks (n_chunks (length data)) @ rest"
  then obtain rest where rx: "rx c = acks (n_chunks (length data)) @ rest" ..
  show ?thesis
    unfolding transfer_acked [OF rx] by (simp add: filter_acked_steps assms)
next
  assume "\<exists>k<n_chunks (length data). \<exists>rest. rx c = acks k @ rest \<and>
            take (length ACK_MSG) rest \<noteq> bytes ACK_MSG"
  then obtain k rest where k: "k < n_chunks (length data)" and rx: "rx c = acks k @ rest"
    and bad: "take (length ACK_MSG) rest \<noteq> bytes ACK_MSG"
    by blast
  from k have lt: "BUFFER_SIZE * k < length data"
    by (simp add: n_chunks_gt)
  show ?thesis
    unfolding transfer_nak [OF rx bad lt] by (simp add: filter_acked_steps)
qed

lemma Dial_in_filter: "Dial h p \<in> set tr \<longleftrightarrow> Dial h p \<in> set (filter is_dial_or_sleep tr)"
  by simp

lemma send_body_dials:
  assumes "send_body rep e f host = Some (out, tr)" and "Dial h p \<in> set tr"
    and rep: "\<And>b. filter is_dial_or_sleep (rep b) = []"
  shows "h = host"
proof (cases "fs_ReadFile e f")
  case (Inl err)
  with assms(1,2) show ?thesis
    by (auto simp: send_body_not_found)
next
  case (Inr data)
  show ?thesis
  proof (cases "fst (calculateCRC32 e f)")
    case (Inl err)
    with assms(1,2) Inr calculateCRC32_log [of e f] show ?thesis
      by (auto simp: send_body_crc_failure)
  next
    case crc: (Inr cksum)
    have "\<not> (\<forall>k. net_Dial e host SERVER_PORT k \<noteq> None)"
    proof
      assume "\<forall>k. net_Dial e host SERVER_PORT k \<noteq> None"
      from send_body_never [OF Inr crc this, of rep] assms(1) show False
        by simp
    qed
    then obtain N where "\<forall>k<N. net_Dial e host SERVER_PORT k \<noteq> None"
      and "net_Dial e host SERVER_PORT N = None"
      by (rule first_connect)
    with Inr crc have "reaches_server e f host data cksum N"
      by (simp add: reaches_server_def)
    from send_body_connected [OF this, of rep] assms(1)
    have tr: "tr = prelude e f host data cksum N @ snd (transfer rep (net_conn e) data cksum)"
      by simp
    have "Dial h p \<in> set (filter is_dial_or_sleep tr)"
      using assms(2) by simp
    then have "Dial h p \<in> set (concat (replicate N [Dial host SERVER_PORT, Sleep 3]) @
                                  [Dial host SERVER_PORT])"
      unfolding tr by (simp add: prelude_projections dial_transfer [OF rep])
    then show ?thesis
      by (auto split: if_splits)
  qed
qed

lemma report2_quiet: "filter is_dial_or_sleep (report2 b) = []"
  by (simp add: report2_def)

lemma isValidIP_examples:
  "isValidIP ''192.168.1.122''" "isValidIP ''0.0.0.0''" "isValidIP ''255.255.255.255''"
  "\<not> isValidIP ''999.1.1.1''" "\<not> isValidIP ''1.2.3''" "\<not> isValidIP ''256.1.1.1''"
  "\<not> isValidIP ''1.2.3.4.5''" "\<not> isValidIP ''1.2.3.''" "\<not> isValidIP []"
  by (simp_all add: isValidIP_def ip_re_def octet_re_def Opt_def numeral_3_eq_3)

text \<open>
  C8. \<^verbatim>\<open>isValidIP\<close> accepts exactly the dotted quads. When the program of the second file
  is started with an address argument that is not a dotted quad, it returns having only
  printed: it opens no file, computes no checksum and makes no connection attempt; unless
  its first argument asks for the version, it prints that the address is invalid and exits
  with status 1. In every run of the program, each call of \<^verbatim>\<open>net.Dial\<close> is to a dotted quad:
  \<^verbatim>\<open>sendFirmware\<close> is not entered with any other address.
\<close>

theorem invalid_address_rejected:
  "(2 < length args \<and> \<not> dotted_quad (args ! 2) \<longrightarrow>
      (\<exists>rc tr. main2 e args = Some (rc, tr) \<and> (\<forall>ev \<in> set tr. \<exists>m. ev = Print m) \<and>
         (args ! 1 \<noteq> ''version'' \<and> args ! 1 \<noteq> ''-v'' \<longrightarrow>
            rc = 1 \<and> tr = [Print (MsgInvalidIP (args ! 2))]))) \<and>
   (\<forall>rc tr host port. main2 e args = Some (rc, tr) \<and> Dial host port \<in> set tr \<longrightarrow>
      dotted_quad host)"
proof (intro conjI impI allI)
  assume a: "2 < length args \<and> \<not> dotted_quad (args ! 2)"
  then have "\<not> isValidIP (args ! 2)"
    by (simp add: isValidIP_iff)
  with a show "\<exists>rc tr. main2 e args = Some (rc, tr) \<and> (\<forall>ev \<in> set tr. \<exists>m. ev = Print m) \<and>
         (args ! 1 \<noteq> ''version'' \<and> args ! 1 \<noteq> ''-v'' \<longrightarrow>
            rc = 1 \<and> tr = [Print (MsgInvalidIP (args ! 2))])"
    by (auto simp: main2_def Let_def)
next
  fix rc tr host port
  assume run: "main2 e args = Some (rc, tr) \<and> Dial host port \<in> set tr"
  show "dotted_quad host"
  proof (cases "length args < 2 \<or> args ! 1 = ''version'' \<or> args ! 1 = ''-v'' \<or> length args < 3
                \<or> \<not> isValidIP (args ! 2)")
    case True
    with run show ?thesis
      by (auto simp: main2_def Let_def split: if_splits)
  next
    case False
    with run obtain out where "sendFirmware2 e (args ! 1) (args ! 2) = Some (out, tr)"
      by (auto simp: main2_def Let_def split: option.splits)
    then have "host = args ! 2"
      using run report2_quiet unfolding sendFirmware2_def by (auto dest: send_body_dials)
    with False show ?thesis
      by (simp add: isValidIP_iff)
  qed
qed

theorem invalid_address_rejected_witness:
  "main2 (sample_env image300 [] 0) [''gboot'', ''fw.bin'', ''999.1.1.1''] =
     Some (1, [Print (MsgInvalidIP ''999.1.1.1'')]) \<and>
   main2 (sample_env image300 [] 0) [''gboot'', ''fw.bin'', ''1.2.3''] =
     Some (1, [Print (MsgInvalidIP ''1.2.3'')]) \<and>
   (\<exists>rc tr. main2 (sample_env image300 [] 0) [''gboot'', ''fw.bin'', ''10.0.0.7''] = Some (rc, tr) \<and>
      Dial ''10.0.0.7'' SERVER_PORT \<in> set tr) \<and>
   dotted_quad ''10.0.0.7''"
proof -
  let ?e = "sample_env image300 [] 0"
  have bad1: "2 < length [''gboot'', ''fw.bin'', ''999.1.1.1''] \<and>
              \<not> dotted_quad ([''gboot'', ''fw.bin'', ''999.1.1.1''] ! 2)"
    by (simp add: dotted_quad_def octet_ok_def dec_value_def digit_val_def is_digit_def)
  have bad2: "2 < length [''gboot'', ''fw.bin'', ''1.2.3''] \<and>
              \<not> dotted_quad ([''gboot'', ''fw.bin'', ''1.2.3''] ! 2)"
    by (simp add: dotted_quad_def)
  from invalid_address_rejected [of "[''gboot'', ''fw.bin'', ''999.1.1.1'']" ?e] bad1
  have 1: "main2 ?e [''gboot'', ''fw.bin'', ''999.1.1.1''] =
           Some (1, [Print (MsgInvalidIP ''999.1.1.1'')])"
    by auto
  from invalid_address_rejected [of "[''gboot'', ''fw.bin'', ''1.2.3'']" ?e] bad2
  have 2: "main2 ?e [''gboot'', ''fw.bin'', ''1.2.3''] = Some (1, [Print (MsgInvalidIP ''1.2.3'')])"
    by auto
  have valid: "isValidIP ''10.0.0.7''"
    by (simp add: isValidIP_def ip_re_def octet_re_def Opt_def numeral_3_eq_3)
  have "sendFirmware2 ?e ''fw.bin'' ''10.0.0.7'' =
        Some (fst (transfer report2 (net_conn ?e) image300 (ChecksumIEEE image300)),
              prelude ?e ''fw.bin'' ''10.0.0.7'' image300 (ChecksumIEEE image300) 0 @
              snd (transfer report2 (net_conn ?e) image300 (ChecksumIEEE image300)))"
    unfolding sendFirmware2_def by (rule send_body_connected [OF reaches_sample])
  then obtain out tr where sf: "sendFirmware2 ?e ''fw.bin'' ''10.0.0.7'' = Some (out, tr)"
    and "tr = prelude ?e ''fw.bin'' ''10.0.0.7'' image300 (ChecksumIEEE image300) 0 @
              snd (transfer report2 (net_conn ?e) image300 (ChecksumIEEE image300))"
    by blast
  then have dial: "Dial ''10.0.0.7'' SERVER_PORT \<in> set tr"
    by (simp add: prelude_def)
  have "main2 ?e [''gboot'', ''fw.bin'', ''10.0.0.7''] = Some (0, tr)"
    using valid by (simp add: main2_def sf)
  with dial have 3: "\<exists>rc tr. main2 ?e [''gboot'', ''fw.bin'', ''10.0.0.7''] = Some (rc, tr) \<and>
      Dial ''10.0.0.7'' SERVER_PORT \<in> set tr"
    by blast
  with invalid_address_rejected [of "[''gboot'', ''fw.bin'', ''10.0.0.7'']" ?e]
  have 4: "dotted_quad ''10.0.0.7''"
    by blast
  from 1 2 3 4 show ?thesis
    by blast
qed

end
